theory Spec2Isabelle
  imports Main "HOL-Library.Word" "HOL-Library.Monad_Syntax" "HOL-Library.Multiset"
begin

unbundle bit_operations_syntax

section \<open>Bit-index engine (indexes.hpp)\<close>

text \<open>
  \<^verbatim>\<open>uint_t\<close> is \<^verbatim>\<open>uint64_t\<close>: a 64-bit word, on which \<open>+\<close>, \<open>push_bit\<close> (\<^verbatim>\<open><<\<close>) and
  \<open>drop_bit\<close> (\<^verbatim>\<open>>>\<close>) lose the bits that leave the word. A \<^verbatim>\<open>reg_t\<close> is a vector of
  qubit positions. A position is only ever used to index the two 64-entry tables and as a
  shift count, so it is modelled as a \<open>nat\<close>: every value from 64 on is outside both
  tables whatever its width.

  C++ gives no meaning to a read outside an array or to a shift of a 64-bit value by 64
  or more. The model returns \<open>None\<close> wherever the source does one of these, and
  \<open>Some\<close> of the value otherwise, with one exception: the left shift of
  \<^verbatim>\<open>index0\<close>, whose count is 64 at position 63, a position that both tables cover
  (see \<open>shl_wrap\<close> below). Memory is not bounded in the model: an allocation never
  fails.
\<close>

type_synonym uint_t = "64 word"
type_synonym reg_t = "nat list"

definition BITS_table :: "uint_t list" where
  "BITS_table =
    [1, 2, 4, 8, 16, 32, 64, 128, 256, 512, 1024, 2048, 4096, 8192, 16384, 32768, 65536,
     131072, 262144, 524288, 1048576, 2097152, 4194304, 8388608, 16777216, 33554432,
     67108864, 134217728, 268435456, 536870912, 1073741824, 2147483648, 4294967296,
     8589934592, 17179869184, 34359738368, 68719476736, 137438953472, 274877906944,
     549755813888, 1099511627776, 2199023255552, 4398046511104, 8796093022208,
     17592186044416, 35184372088832, 70368744177664, 140737488355328, 281474976710656,
     562949953421312, 1125899906842624, 2251799813685248, 4503599627370496, 9007199254740992,
     18014398509481984, 36028797018963968, 72057594037927936, 144115188075855872,
     288230376151711744, 576460752303423488, 1152921504606846976, 2305843009213693952,
     4611686018427387904, 9223372036854775808]"

definition MASKS_table :: "uint_t list" where
  "MASKS_table =
    [0, 1, 3, 7, 15, 31, 63, 127, 255, 511, 1023, 2047, 4095, 8191, 16383, 32767, 65535,
     131071, 262143, 524287, 1048575, 2097151, 4194303, 8388607, 16777215, 33554431,
     67108863, 134217727, 268435455, 536870911, 1073741823, 2147483647, 4294967295,
     8589934591, 17179869183, 34359738367, 68719476735, 137438953471, 274877906943,
     549755813887, 1099511627775, 2199023255551, 4398046511103, 8796093022207,
     17592186044415, 35184372088831, 70368744177663, 140737488355327, 281474976710655,
     562949953421311, 1125899906842623, 2251799813685247, 4503599627370495, 9007199254740991,
     18014398509481983, 36028797018963967, 72057594037927935, 144115188075855871,
     288230376151711743, 576460752303423487, 1152921504606846975, 2305843009213693951,
     4611686018427387903, 9223372036854775807]"

text \<open>\<^verbatim>\<open>BITS[i]\<close> and \<^verbatim>\<open>MASKS[i]\<close>: reads of a \<^verbatim>\<open>std::array<uint_t, 64>\<close>.\<close>

definition BITS :: "nat \<Rightarrow> uint_t option" where
  "BITS i = (if i < length BITS_table then Some (BITS_table ! i) else None)"

definition MASKS :: "nat \<Rightarrow> uint_t option" where
  "MASKS i = (if i < length MASKS_table then Some (MASKS_table ! i) else None)"

text \<open>\<^verbatim>\<open>x >> n\<close> and \<^verbatim>\<open>x << n\<close> on \<^verbatim>\<open>uint_t\<close>, defined for \<open>n < 64\<close> only.\<close>

definition shr :: "uint_t \<Rightarrow> nat \<Rightarrow> uint_t option" where
  "shr x n = (if n < 64 then Some (drop_bit n x) else None)"

definition shl :: "uint_t \<Rightarrow> nat \<Rightarrow> uint_t option" where
  "shl x n = (if n < 64 then Some (push_bit n x) else None)"

text \<open>
  \<^verbatim>\<open>retval <<= qubits_sorted[j] + 1\<close> in \<^verbatim>\<open>index0\<close>. The count is the position plus
  one, so it is 64 at position 63. The shift instructions of the processors the simulator
  is compiled for (x86-64 and AArch64) use the low six bits of the count, and the model
  does the same: a shift by 64 leaves the value as it is. The value shifted is
  \<^verbatim>\<open>retval >> 63\<close> then, which is 0 unless bit 63 of \<^verbatim>\<open>retval\<close> is set.
\<close>

definition shl_wrap :: "uint_t \<Rightarrow> nat \<Rightarrow> uint_t" where
  "shl_wrap x n = push_bit (n mod 64) x"

text \<open>\<^verbatim>\<open>v[i]\<close> on a vector or array: defined inside the bounds only.\<close>

definition at :: "'a list \<Rightarrow> nat \<Rightarrow> 'a option" where
  "at xs i = (if i < length xs then Some (xs ! i) else None)"

text \<open>
  \<^verbatim>\<open>index0\<close>: the loop runs over the entries of \<^verbatim>\<open>qubits_sorted\<close> in order, so it is a
  structural recursion on the list that carries \<^verbatim>\<open>retval\<close>.
\<close>

fun index0_loop :: "reg_t \<Rightarrow> uint_t \<Rightarrow> uint_t option" where
  "index0_loop [] retval = Some retval"
| "index0_loop (q # qs) retval =
     do {
       m \<leftarrow> MASKS q;
       let lowbits = retval AND m;
       r1 \<leftarrow> shr retval q;
       let r2 = shl_wrap r1 (q + 1);
       index0_loop qs (r2 OR lowbits)
     }"

definition index0 :: "reg_t \<Rightarrow> uint_t \<Rightarrow> uint_t option" where
  "index0 qubits_sorted k = index0_loop qubits_sorted k"

text \<open>
  The variable-size \<^verbatim>\<open>indexes\<close>. \<^verbatim>\<open>ret\<close> is an array of \<^verbatim>\<open>BITS[N]\<close> cells; the cells
  not yet written are unspecified in C++ and hold 0 here. The inner loop is
  \<^verbatim>\<open>for (j = 0; j < n; j++) ret[n + j] = ret[j] | bit\<close>, the outer one
  \<^verbatim>\<open>for (i = 0; i < N; i++)\<close>.
\<close>

function indexes_inner :: "nat \<Rightarrow> uint_t \<Rightarrow> nat \<Rightarrow> uint_t list \<Rightarrow> uint_t list option" where
  "indexes_inner n bitv j ret =
     (if j < n then
        (if n + j < length ret
         then indexes_inner n bitv (j + 1) (ret[n + j := (ret ! j) OR bitv])
         else None)
      else Some ret)"
  by pat_completeness auto
termination
  by (relation "measure (\<lambda>(n, bitv, j, ret). n - j)") auto

declare indexes_inner.simps [simp del]

function indexes_outer :: "reg_t \<Rightarrow> nat \<Rightarrow> nat \<Rightarrow> uint_t list \<Rightarrow> uint_t list option" where
  "indexes_outer qubits N i ret =
     (if i < N then
        do {
          n \<leftarrow> BITS i;
          q \<leftarrow> at qubits i;
          bitv \<leftarrow> BITS q;
          ret' \<leftarrow> indexes_inner (unat n) bitv 0 ret;
          indexes_outer qubits N (i + 1) ret'
        }
      else Some ret)"
  by pat_completeness auto
termination
  by (relation "measure (\<lambda>(qubits, N, i, ret). N - i)") auto

declare indexes_outer.simps [simp del]

definition indexes :: "reg_t \<Rightarrow> reg_t \<Rightarrow> uint_t \<Rightarrow> uint_t list option" where
  "indexes qubits qubits_sorted k =
     do {
       let N = length qubits_sorted;
       sz \<leftarrow> BITS N;
       i0 \<leftarrow> index0 qubits_sorted k;
       indexes_outer qubits N 0 ((replicate (unat sz) 0)[0 := i0])
     }"

text \<open>
  The fixed-size \<^verbatim>\<open>indexes<N>\<close>. \<open>N\<close> is the template parameter, \<^verbatim>\<open>qs\<close> and
  \<^verbatim>\<open>qubits_sorted\<close> are \<^verbatim>\<open>std::array\<close>s of \<open>N\<close> entries (lists of length \<open>N\<close>), and
  \<^verbatim>\<open>ret\<close> has \<^verbatim>\<open>1ULL << N\<close> cells.
\<close>

function indexes_fixed_inner :: "nat \<Rightarrow> uint_t \<Rightarrow> nat \<Rightarrow> uint_t list \<Rightarrow> uint_t list option" where
  "indexes_fixed_inner n bitv j ret =
     (if j < n then
        (if n + j < length ret
         then indexes_fixed_inner n bitv (j + 1) (ret[n + j := (ret ! j) OR bitv])
         else None)
      else Some ret)"
  by pat_completeness auto
termination
  by (relation "measure (\<lambda>(n, bitv, j, ret). n - j)") auto

declare indexes_fixed_inner.simps [simp del]

function indexes_fixed_outer :: "reg_t \<Rightarrow> nat \<Rightarrow> nat \<Rightarrow> uint_t list \<Rightarrow> uint_t list option" where
  "indexes_fixed_outer qs N i ret =
     (if i < N then
        do {
          n \<leftarrow> BITS i;
          q \<leftarrow> at qs i;
          bitv \<leftarrow> BITS q;
          ret' \<leftarrow> indexes_fixed_inner (unat n) bitv 0 ret;
          indexes_fixed_outer qs N (i + 1) ret'
        }
      else Some ret)"
  by pat_completeness auto
termination
  by (relation "measure (\<lambda>(qs, N, i, ret). N - i)") auto

declare indexes_fixed_outer.simps [simp del]

definition indexes_fixed :: "nat \<Rightarrow> reg_t \<Rightarrow> reg_t \<Rightarrow> uint_t \<Rightarrow> uint_t list option" where
  "indexes_fixed N qs qubits_sorted k =
     do {
       sz \<leftarrow> shl 1 N;
       i0 \<leftarrow> index0 qubits_sorted k;
       indexes_fixed_outer qs N 0 ((replicate (unat sz) 0)[0 := i0])
     }"

section \<open>Auxiliary notions for the index engine\<close>

text \<open>
  The insertion of a zero bit at position \<open>q\<close>. It is one iteration of the loop of
  \<^verbatim>\<open>index0\<close> for every position below 63, and for position 63 when bit 63 of the
  value is clear (the value is left as it is then).
\<close>

definition ins0 :: "nat \<Rightarrow> uint_t \<Rightarrow> uint_t" where
  "ins0 q w = push_bit (q + 1) (drop_bit q w) OR (w AND mask q)"

text \<open>The inverse step: the bit at position \<open>q\<close> is deleted and the bits above it move down.\<close>

definition del0 :: "nat \<Rightarrow> uint_t \<Rightarrow> uint_t" where
  "del0 q w = push_bit q (drop_bit (q + 1) w) OR (w AND mask q)"

text \<open>
  Reading back the spectator bits of a full index, following the specification's words
  (not a function of the source): the bits at the positions of the sorted qubit list are
  deleted, the highest position first, so that the lower positions are still where the
  list says.
\<close>

definition spectator_bits :: "reg_t \<Rightarrow> uint_t \<Rightarrow> uint_t" where
  "spectator_bits qubits_sorted f = fold del0 (rev qubits_sorted) f"

text \<open>
  The bits that entry \<open>m\<close> of a block adds to entry 0: \<^verbatim>\<open>BITS[qubits[t]]\<close> for every
  \<open>t\<close> that is a set bit of \<open>m\<close>.
\<close>

fun subset_mask :: "reg_t \<Rightarrow> nat \<Rightarrow> uint_t" where
  "subset_mask [] m = 0"
| "subset_mask (q # qs) m = (if odd m then push_bit q 1 else 0) OR subset_mask qs (m div 2)"

section \<open>Traversal primitives (indexes.hpp)\<close>

text \<open>
  \<^verbatim>\<open>apply_lambda\<close> and \<^verbatim>\<open>apply_lambda_MOSQ\<close> call an opaque \<^verbatim>\<open>func\<close>; all they decide is
  with which arguments it is called and in what order. The model returns exactly that:
  the list of the arguments in call order for the sequential branch, and their multiset
  for the \<^verbatim>\<open>#pragma omp parallel for\<close> branch, where every iteration runs once and no
  order is fixed.

  The loop variable \<^verbatim>\<open>k\<close> is an \<^verbatim>\<open>int_t\<close>: the bounds are the \<^verbatim>\<open>size_t\<close> arguments read
  as signed 64-bit values (\<open>sint\<close>), \<open>k\<close> is an \<open>int\<close> between them (it stays
  below the upper bound, so \<^verbatim>\<open>k++\<close> cannot overflow), and it is converted back to
  \<^verbatim>\<open>uint_t\<close> (\<open>word_of_int\<close>) where \<^verbatim>\<open>indexes\<close> takes it. The qubit list is a \<^verbatim>\<open>reg_t\<close>,
  for which the call of \<^verbatim>\<open>indexes\<close> is the variable-size one.
\<close>

datatype 'a run = Sequential "'a list" | Parallel "'a multiset"

function apply_lambda_loop ::
  "reg_t \<Rightarrow> reg_t \<Rightarrow> int \<Rightarrow> int \<Rightarrow> uint_t list list \<Rightarrow> uint_t list list option" where
  "apply_lambda_loop qubits qubits_sorted k END calls =
     (if k < END then
        do {
          inds \<leftarrow> indexes qubits qubits_sorted (word_of_int k);
          apply_lambda_loop qubits qubits_sorted (k + 1) END (calls @ [inds])
        }
      else Some calls)"
  by pat_completeness auto
termination
  by (relation "measure (\<lambda>(qubits, qubits_sorted, k, END, calls). nat (END - k))") auto

declare apply_lambda_loop.simps [simp del]

definition apply_lambda :: "uint_t \<Rightarrow> uint_t \<Rightarrow> uint_t \<Rightarrow> reg_t \<Rightarrow> uint_t list run option" where
  "apply_lambda start stop omp_threads qubits =
     do {
       let NUM_QUBITS = length qubits;
       e \<leftarrow> shr stop NUM_QUBITS;
       let END = sint e;
       let qubits_sorted = sort qubits;
       calls \<leftarrow> apply_lambda_loop qubits qubits_sorted (sint start) END [];
       Some (if omp_threads > 1 then Parallel (mset calls) else Sequential calls)
     }"

text \<open>
  The parity check of \<^verbatim>\<open>apply_lambda_MOSQ\<close>:
  \<^verbatim>\<open>for (uint_t index : qubits) parity ^= ((k >> index) & 1)\<close>. \<^verbatim>\<open>k >> index\<close> is the
  arithmetic shift of an \<^verbatim>\<open>int_t\<close> (\<open>drop_bit\<close> on \<open>int\<close>), defined for
  \<open>index < 64\<close>; the \<^verbatim>\<open>bool\<close> is promoted for the exclusive or and the result converted
  back (non-zero is true).
\<close>

fun parity_loop :: "reg_t \<Rightarrow> int \<Rightarrow> bool \<Rightarrow> bool option" where
  "parity_loop [] k parity = Some parity"
| "parity_loop (index # rest) k parity =
     (if index < 64
      then parity_loop rest k (((of_bool parity :: int) XOR (drop_bit index k AND 1)) \<noteq> 0)
      else None)"

function apply_lambda_MOSQ_loop :: "reg_t \<Rightarrow> int \<Rightarrow> int \<Rightarrow> int list \<Rightarrow> int list option" where
  "apply_lambda_MOSQ_loop qubits k stop calls =
     (if k < stop then
        do {
          parity \<leftarrow> parity_loop qubits k False;
          apply_lambda_MOSQ_loop qubits (k + 1) stop (if parity then calls @ [k] else calls)
        }
      else Some calls)"
  by pat_completeness auto
termination
  by (relation "measure (\<lambda>(qubits, k, stop, calls). nat (stop - k))") auto

declare apply_lambda_MOSQ_loop.simps [simp del]

definition apply_lambda_MOSQ :: "uint_t \<Rightarrow> uint_t \<Rightarrow> uint_t \<Rightarrow> reg_t \<Rightarrow> int run option" where
  "apply_lambda_MOSQ start stop omp_threads qubits =
     do {
       calls \<leftarrow> apply_lambda_MOSQ_loop qubits (sint start) (sint stop) [];
       Some (if omp_threads > 1 then Parallel (mset calls) else Sequential calls)
     }"

section \<open>The state layer (statevector_state.hpp)\<close>

text \<open>
  The amplitude container \<^verbatim>\<open>BaseState::qreg_\<close>, the random number generator and the
  helpers of \<^verbatim>\<open>Utils\<close> and \<^verbatim>\<open>Chunk\<close> are collaborators outside the two source files. They
  are parameters of the model: a value of an arbitrary type \<open>'q\<close> for the register,
  \<open>'g\<close> for the generator, and a record of the functions the code calls on them.
  \<^verbatim>\<open>double\<close> and \<^verbatim>\<open>complex_t\<close> are arbitrary types \<open>'r\<close> and \<open>'c\<close> with the operations
  the code uses, so nothing is assumed about floating-point arithmetic. A \<^verbatim>\<open>cvector_t\<close>
  is a list of \<open>'c\<close>, a \<^verbatim>\<open>cmatrix_t\<close> a list of rows.
\<close>

type_synonym 'c cvector_t = "'c list"
type_synonym 'c cmatrix_t = "'c list list"

record ('r, 'c) arith =
  d_zero :: 'r
  d_one :: 'r
  d_add :: "'r \<Rightarrow> 'r \<Rightarrow> 'r"
  d_sub :: "'r \<Rightarrow> 'r \<Rightarrow> 'r"
  d_div :: "'r \<Rightarrow> 'r \<Rightarrow> 'r"
  d_sqrt :: "'r \<Rightarrow> 'r"
  d_gt :: "'r \<Rightarrow> 'r \<Rightarrow> bool"
  c_of_double :: "'r \<Rightarrow> 'c"
  c_mul :: "'c \<Rightarrow> 'c \<Rightarrow> 'c"
  c_add :: "'c \<Rightarrow> 'c \<Rightarrow> 'c"

record ('q, 'g, 'r, 'c) collab =
  rng_rand :: "'g \<Rightarrow> 'r \<times> 'g"
  vectorize_matrix :: "'c cmatrix_t \<Rightarrow> 'c cvector_t"
  scalar_multiply_inplace :: "'c cvector_t \<Rightarrow> 'r \<Rightarrow> 'c cvector_t"
  scalar_times_matrix :: "'c \<Rightarrow> 'c cmatrix_t \<Rightarrow> 'c cmatrix_t"
  block_diagonal_matrix :: "nat \<Rightarrow> nat \<Rightarrow> reg_t \<Rightarrow> 'c cvector_t \<Rightarrow> reg_t \<times> 'c cvector_t"
  qreg_norm :: "'q \<Rightarrow> reg_t \<Rightarrow> 'c cvector_t \<Rightarrow> 'r"
  qreg_apply_matrix :: "reg_t \<Rightarrow> 'c cvector_t \<Rightarrow> 'q \<Rightarrow> 'q"
  qreg_apply_diagonal_matrix :: "reg_t \<Rightarrow> 'c cvector_t \<Rightarrow> 'q \<Rightarrow> 'q"
  qreg_apply_mcx :: "reg_t \<Rightarrow> 'q \<Rightarrow> 'q"
  qreg_num_qubits :: "'q \<Rightarrow> nat"
  qreg_chunk_index :: "'q \<Rightarrow> nat"
  qreg_support_global_indexing :: "'q \<Rightarrow> bool"

text \<open>
  The state of a \<^verbatim>\<open>State<statevec_t>\<close> as far as the modelled methods read or write it:
  the register, \<^verbatim>\<open>num_global_qubits_\<close>, and a log of the calls made on the register, in
  order, which the source does not have: it is what lets a theorem say that a method
  was called once, or never.
\<close>

datatype 'c call =
  Norm reg_t "'c cvector_t"
| Apply_matrix reg_t "'c cvector_t"
| Apply_diagonal_matrix reg_t "'c cvector_t"
| Apply_mcx reg_t

record ('q, 'c) state =
  qreg :: 'q
  num_global_qubits :: nat
  call_log :: "'c call list"

text \<open>The four calls on \<^verbatim>\<open>BaseState::qreg_\<close>, each logged.\<close>

definition call_norm ::
  "('q, 'g, 'r, 'c) collab \<Rightarrow> reg_t \<Rightarrow> 'c cvector_t \<Rightarrow> ('q, 'c) state \<Rightarrow> 'r \<times> ('q, 'c) state" where
  "call_norm E qubits vmat s =
     (qreg_norm E (qreg s) qubits vmat, s\<lparr>call_log := call_log s @ [Norm qubits vmat]\<rparr>)"

definition call_apply_matrix ::
  "('q, 'g, 'r, 'c) collab \<Rightarrow> reg_t \<Rightarrow> 'c cvector_t \<Rightarrow> ('q, 'c) state \<Rightarrow> ('q, 'c) state" where
  "call_apply_matrix E qubits vmat s =
     s\<lparr>qreg := qreg_apply_matrix E qubits vmat (qreg s),
       call_log := call_log s @ [Apply_matrix qubits vmat]\<rparr>"

definition call_apply_diagonal_matrix ::
  "('q, 'g, 'r, 'c) collab \<Rightarrow> reg_t \<Rightarrow> 'c cvector_t \<Rightarrow> ('q, 'c) state \<Rightarrow> ('q, 'c) state" where
  "call_apply_diagonal_matrix E qubits diag s =
     s\<lparr>qreg := qreg_apply_diagonal_matrix E qubits diag (qreg s),
       call_log := call_log s @ [Apply_diagonal_matrix qubits diag]\<rparr>"

definition call_apply_mcx ::
  "('q, 'g, 'r, 'c) collab \<Rightarrow> reg_t \<Rightarrow> ('q, 'c) state \<Rightarrow> ('q, 'c) state" where
  "call_apply_mcx E qubits s =
     s\<lparr>qreg := qreg_apply_mcx E qubits (qreg s), call_log := call_log s @ [Apply_mcx qubits]\<rparr>"

text \<open>
  \<^verbatim>\<open>State::apply_diagonal_matrix(qubits, diag)\<close> and \<^verbatim>\<open>State::apply_matrix(qubits, vmat)\<close>.
  The latter compares \<^verbatim>\<open>vmat.size()\<close> with \<^verbatim>\<open>1ULL << qubits.size()\<close>, a shift that is
  undefined from 64 qubits on.
\<close>

definition apply_diagonal_matrix ::
  "('q, 'g, 'r, 'c) collab \<Rightarrow> reg_t \<Rightarrow> 'c cvector_t \<Rightarrow> ('q, 'c) state \<Rightarrow> ('q, 'c) state" where
  "apply_diagonal_matrix E qubits diag s =
     (if num_global_qubits s > qreg_num_qubits E (qreg s) \<and>
         \<not> qreg_support_global_indexing E (qreg s)
      then
        (let (qubits_in, diag_in) =
               block_diagonal_matrix E (qreg_chunk_index E (qreg s)) (qreg_num_qubits E (qreg s))
                 qubits diag
         in call_apply_diagonal_matrix E qubits_in diag_in s)
      else call_apply_diagonal_matrix E qubits diag s)"

definition apply_matrix ::
  "('q, 'g, 'r, 'c) collab \<Rightarrow> reg_t \<Rightarrow> 'c cvector_t \<Rightarrow> ('q, 'c) state \<Rightarrow> ('q, 'c) state option" where
  "apply_matrix E qubits vmat s =
     do {
       d \<leftarrow> shl 1 (length qubits);
       Some (if length vmat = unat d
             then apply_diagonal_matrix E qubits vmat s
             else call_apply_matrix E qubits vmat s)
     }"

text \<open>
  \<^verbatim>\<open>for (size_t j = a; j < b; j++) body\<close>, where the body can be undefined: the counting
  loop used by the methods below.
\<close>

function for_loop :: "nat \<Rightarrow> nat \<Rightarrow> (nat \<Rightarrow> 's \<Rightarrow> 's option) \<Rightarrow> 's \<Rightarrow> 's option" where
  "for_loop j b body s =
     (if j < b then do { s' \<leftarrow> body j s; for_loop (j + 1) b body s' } else Some s)"
  by pat_completeness auto
termination
  by (relation "measure (\<lambda>(j, b, body, s). b - j)") auto

declare for_loop.simps [simp del]

text \<open>\<^verbatim>\<open>v[i] = x\<close> for a \<^verbatim>\<open>uint_t\<close> index: a write inside the vector only.\<close>

definition store :: "'a list \<Rightarrow> uint_t \<Rightarrow> 'a \<Rightarrow> 'a list option" where
  "store v i x = (if unat i < length v then Some (v[unat i := x]) else None)"

text \<open>
  \<^verbatim>\<open>measure_reset_update\<close>. \<^verbatim>\<open>dim * dim\<close>, \<^verbatim>\<open>final_state * dim + meas_state\<close> and
  \<^verbatim>\<open>j * dim + j\<close> are computed in \<^verbatim>\<open>size_t\<close> and wrap around. \<^verbatim>\<open>cvector_t v(n, 0.)\<close> is a
  vector of \<open>n\<close> copies of the complex number made from the double 0.
\<close>

definition perm_body ::
  "('r, 'c) arith \<Rightarrow> uint_t \<Rightarrow> uint_t \<Rightarrow> uint_t \<Rightarrow> nat \<Rightarrow> 'c cvector_t \<Rightarrow> 'c cvector_t option" where
  "perm_body A dim final_state meas_state j perm =
     (if of_nat j \<noteq> final_state \<and> of_nat j \<noteq> meas_state
      then store perm (of_nat j * dim + of_nat j) (c_of_double A (d_one A))
      else Some perm)"

definition measure_reset_update ::
  "('r, 'c) arith \<Rightarrow> ('q, 'g, 'r, 'c) collab \<Rightarrow> reg_t \<Rightarrow> uint_t \<Rightarrow> uint_t \<Rightarrow> 'r \<Rightarrow>
   ('q, 'c) state \<Rightarrow> ('q, 'c) state option" where
  "measure_reset_update A E qubits final_state meas_state meas_prob s =
     (if length qubits = 1 then
        do {
          mdiag \<leftarrow> store (replicate 2 (c_of_double A (d_zero A))) meas_state
                     (c_of_double A (d_div A (d_one A) (d_sqrt A meas_prob)));
          let s1 = call_apply_diagonal_matrix E qubits mdiag s;
          Some (if final_state \<noteq> meas_state then call_apply_mcx E qubits s1 else s1)
        }
      else
        do {
          dim \<leftarrow> shl 1 (length qubits);
          mdiag \<leftarrow> store (replicate (unat dim) (c_of_double A (d_zero A))) meas_state
                     (c_of_double A (d_div A (d_one A) (d_sqrt A meas_prob)));
          let s1 = call_apply_diagonal_matrix E qubits mdiag s;
          if final_state \<noteq> meas_state then
            do {
              let perm0 = replicate (unat (dim * dim)) (c_of_double A (d_zero A));
              perm1 \<leftarrow> store perm0 (final_state * dim + meas_state) (c_of_double A (d_one A));
              perm2 \<leftarrow> store perm1 (meas_state * dim + final_state) (c_of_double A (d_one A));
              perm \<leftarrow> for_loop 0 (unat dim) (perm_body A dim final_state meas_state) perm2;
              apply_matrix E qubits perm s1
            }
          else Some s1
        })"

text \<open>
  \<^verbatim>\<open>apply_kraus\<close>. The loop runs over the operators but the last
  (\<^verbatim>\<open>j < kmats.size() - 1\<close>) and carries \<^verbatim>\<open>accum\<close>; it returns \<^verbatim>\<open>accum\<close>, \<^verbatim>\<open>complete\<close> and
  the state. An empty \<^verbatim>\<open>kmats\<close> returns at once.
\<close>

fun apply_kraus_loop ::
  "('r, 'c) arith \<Rightarrow> ('q, 'g, 'r, 'c) collab \<Rightarrow> reg_t \<Rightarrow> 'r \<Rightarrow> 'c cmatrix_t list \<Rightarrow> 'r \<Rightarrow>
   ('q, 'c) state \<Rightarrow> ('r \<times> bool \<times> ('q, 'c) state) option" where
  "apply_kraus_loop A E qubits r [] accum s = Some (accum, False, s)"
| "apply_kraus_loop A E qubits r (K # Ks) accum s =
     (let vmat = vectorize_matrix E K;
          (p, s1) = call_norm E qubits vmat s;
          accum' = d_add A accum p
      in if d_gt A accum' r then
           do {
             let vmat' = scalar_multiply_inplace E vmat (d_div A (d_one A) (d_sqrt A p));
             s2 \<leftarrow> apply_matrix E qubits vmat' s1;
             Some (accum', True, s2)
           }
         else apply_kraus_loop A E qubits r Ks accum' s1)"

definition apply_kraus ::
  "('r, 'c) arith \<Rightarrow> ('q, 'g, 'r, 'c) collab \<Rightarrow> reg_t \<Rightarrow> 'c cmatrix_t list \<Rightarrow> 'g \<Rightarrow>
   ('q, 'c) state \<Rightarrow> ('g \<times> ('q, 'c) state) option" where
  "apply_kraus A E qubits kmats rng s =
     (if kmats = [] then Some (rng, s)
      else
        do {
          let (r, rng') = rng_rand E rng;
          (accum, complete, s1) \<leftarrow> apply_kraus_loop A E qubits r (butlast kmats) (d_zero A) s;
          if \<not> complete then
            do {
              let renorm = c_of_double A (d_div A (d_one A) (d_sqrt A (d_sub A (d_one A) accum)));
              let vmat = vectorize_matrix E (scalar_times_matrix E renorm (last kmats));
              s2 \<leftarrow> apply_matrix E qubits vmat s1;
              Some (rng', s2)
            }
          else Some (rng', s1)
        })"

section \<open>Density extraction (statevector_state.hpp)\<close>

text \<open>
  What \<^verbatim>\<open>apply_save_density_matrix\<close> and \<^verbatim>\<open>vec2density\<close> ask of the register: \<^verbatim>\<open>norm()\<close>,
  \<^verbatim>\<open>copy_to_vector()\<close> and \<^verbatim>\<open>num_qubits()\<close>. The amplitudes of the copied vector have an
  arbitrary type \<open>'a\<close>, with \<^verbatim>\<open>std::conj\<close> on it and the conversion \<^verbatim>\<open>complex_t(\<cdot>)\<close>.
\<close>

record ('q, 'r, 'a, 'c) density_collab =
  norm_all :: "'q \<Rightarrow> 'r"
  copy_to_vector :: "'q \<Rightarrow> 'a list"
  num_qubits :: "'q \<Rightarrow> nat"
  complex_t :: "'a \<Rightarrow> 'c"
  std_conj :: "'a \<Rightarrow> 'a"

text \<open>
  \<^verbatim>\<open>densmat(row, col)\<close> on a matrix held as a list of rows: a read and a write, both
  inside the matrix only.
\<close>

definition get_cell :: "'c cmatrix_t \<Rightarrow> nat \<Rightarrow> nat \<Rightarrow> 'c option" where
  "get_cell m row col = do { r \<leftarrow> at m row; at r col }"

definition set_cell :: "'c cmatrix_t \<Rightarrow> nat \<Rightarrow> nat \<Rightarrow> 'c \<Rightarrow> 'c cmatrix_t option" where
  "set_cell m row col x =
     do { r \<leftarrow> at m row; if col < length r then Some (m[row := r[col := x]]) else None }"

text \<open>\<^verbatim>\<open>complex_t(vec[i]) * complex_t(std::conj(vec[j]))\<close>.\<close>

definition outer_term ::
  "('r, 'c) arith \<Rightarrow> ('q, 'r, 'a, 'c) density_collab \<Rightarrow> 'a list \<Rightarrow> nat \<Rightarrow> nat \<Rightarrow> 'c option" where
  "outer_term A D vec i j =
     do {
       a \<leftarrow> at vec i;
       b \<leftarrow> at vec j;
       Some (c_mul A (complex_t D a) (complex_t D (std_conj D b)))
     }"

text \<open>
  The body of the loop over \<^verbatim>\<open>rowcol\<close> of the full-matrix branch:
  \<^verbatim>\<open>row = rowcol >> N\<close>, \<^verbatim>\<open>col = rowcol & mask\<close> (\<^verbatim>\<open>rowcol\<close> is not negative).
\<close>

definition full_body ::
  "('r, 'c) arith \<Rightarrow> ('q, 'r, 'a, 'c) density_collab \<Rightarrow> 'a list \<Rightarrow> nat \<Rightarrow> uint_t \<Rightarrow> nat \<Rightarrow>
   'c cmatrix_t \<Rightarrow> 'c cmatrix_t option" where
  "full_body A D vec N mask_N rowcol densmat =
     do {
       let row = drop_bit N rowcol;
       let col = rowcol AND unat mask_N;
       x \<leftarrow> outer_term A D vec row col;
       set_cell densmat row col x
     }"

text \<open>
  The bodies of the loops over \<^verbatim>\<open>col\<close> for one index block \<^verbatim>\<open>inds\<close>: the first block
  assigns, the others add.
\<close>

definition first_block_body ::
  "('r, 'c) arith \<Rightarrow> ('q, 'r, 'a, 'c) density_collab \<Rightarrow> 'a list \<Rightarrow> uint_t list \<Rightarrow> nat \<Rightarrow> nat \<Rightarrow>
   'c cmatrix_t \<Rightarrow> 'c cmatrix_t option" where
  "first_block_body A D vec inds row col densmat =
     do {
       ir \<leftarrow> at inds row;
       ic \<leftarrow> at inds col;
       x \<leftarrow> outer_term A D vec (unat ir) (unat ic);
       set_cell densmat row col x
     }"

definition next_block_body ::
  "('r, 'c) arith \<Rightarrow> ('q, 'r, 'a, 'c) density_collab \<Rightarrow> 'a list \<Rightarrow> uint_t list \<Rightarrow> nat \<Rightarrow> nat \<Rightarrow>
   'c cmatrix_t \<Rightarrow> 'c cmatrix_t option" where
  "next_block_body A D vec inds row col densmat =
     do {
       ir \<leftarrow> at inds row;
       ic \<leftarrow> at inds col;
       x \<leftarrow> outer_term A D vec (unat ir) (unat ic);
       old \<leftarrow> get_cell densmat row col;
       set_cell densmat row col (c_add A old x)
     }"

text \<open>
  \<^verbatim>\<open>vec2density(qubits, vec)\<close>. \<^verbatim>\<open>cmatrix_t densmat(DIM, DIM)\<close> is a matrix of \<open>DIM\<close> rows
  of \<open>DIM\<close> cells, which hold zero here until they are written. \<^verbatim>\<open>DIM * DIM\<close> is
  computed in \<^verbatim>\<open>size_t\<close> and read as an \<^verbatim>\<open>int_t\<close> bound; \<^verbatim>\<open>num_qubits() - N\<close> is a \<^verbatim>\<open>size_t\<close>
  difference, which wraps to a shift count of 64 or more when \<open>N\<close> is the larger. The
  OpenMP loop over \<^verbatim>\<open>rowcol\<close> writes a different cell in each iteration and is run in
  order.
\<close>

definition vec2density ::
  "('r, 'c) arith \<Rightarrow> ('q, 'r, 'a, 'c) density_collab \<Rightarrow> 'q \<Rightarrow> reg_t \<Rightarrow> 'a list \<Rightarrow>
   'c cmatrix_t option" where
  "vec2density A D q qubits vec =
     do {
       let N = length qubits;
       DIM \<leftarrow> shl 1 N;
       let qubits_sorted = sort qubits;
       let densmat = replicate (unat DIM) (replicate (unat DIM) (c_of_double A (d_zero A)));
       if N = num_qubits D q \<and> qubits = qubits_sorted then
         do {
           mask_N \<leftarrow> MASKS N;
           for_loop 0 (nat (sint (DIM * DIM))) (full_body A D vec N mask_N) densmat
         }
       else
         do {
           END \<leftarrow> (if N \<le> num_qubits D q then shl 1 (num_qubits D q - N) else None);
           inds \<leftarrow> indexes qubits qubits_sorted 0;
           densmat1 \<leftarrow> for_loop 0 (unat DIM)
             (\<lambda>row. for_loop 0 (unat DIM) (first_block_body A D vec inds row)) densmat;
           for_loop 1 (unat END)
             (\<lambda>k m. do {
                inds \<leftarrow> indexes qubits qubits_sorted (of_nat k);
                for_loop 0 (unat DIM)
                  (\<lambda>row. for_loop 0 (unat DIM) (next_block_body A D vec inds row)) m
              }) densmat1
         }
     }"

text \<open>
  \<^verbatim>\<open>apply_save_density_matrix\<close>, as the matrix it hands to \<^verbatim>\<open>save_data_average\<close>. For an
  empty qubit list that is \<^verbatim>\<open>cmatrix_t(1, 1)\<close> with \<^verbatim>\<open>norm()\<close> stored at index 0.
\<close>

definition apply_save_density_matrix ::
  "('r, 'c) arith \<Rightarrow> ('q, 'r, 'a, 'c) density_collab \<Rightarrow> reg_t \<Rightarrow> 'q \<Rightarrow> 'c cmatrix_t option" where
  "apply_save_density_matrix A D qubits q =
     (if qubits = [] then
        set_cell (replicate 1 (replicate 1 (c_of_double A (d_zero A)))) 0 0
          (c_of_double A (norm_all D q))
      else vec2density A D q qubits (copy_to_vector D q))"

section \<open>Auxiliary notions for the state layer\<close>

text \<open>
  What \<^verbatim>\<open>apply_kraus\<close> computes on the way: the probabilities of a list of operators on
  the current register, the value of \<^verbatim>\<open>accum\<close> after operator \<open>j\<close>, and the \<^verbatim>\<open>norm\<close>
  calls for a list of operators.
\<close>

definition kraus_accum :: "('r, 'c) arith \<Rightarrow> 'r \<Rightarrow> 'r list \<Rightarrow> nat \<Rightarrow> 'r" where
  "kraus_accum A accum ps j = foldl (d_add A) accum (take (Suc j) ps)"

definition kraus_norms ::
  "('q, 'g, 'r, 'c) collab \<Rightarrow> reg_t \<Rightarrow> 'c cmatrix_t list \<Rightarrow> 'c call list" where
  "kraus_norms E qubits Ks = map (\<lambda>K. Norm qubits (vectorize_matrix E K)) Ks"

definition kraus_probs ::
  "('q, 'g, 'r, 'c) collab \<Rightarrow> reg_t \<Rightarrow> 'c cmatrix_t list \<Rightarrow> ('q, 'c) state \<Rightarrow> 'r list" where
  "kraus_probs E qubits Ks s = map (\<lambda>K. qreg_norm E (qreg s) qubits (vectorize_matrix E K)) Ks"

text \<open>The calls that update the register, as opposed to \<^verbatim>\<open>norm\<close>, which reads it.\<close>

fun is_apply :: "'c call \<Rightarrow> bool" where
  "is_apply (Norm qubits vmat) = False"
| "is_apply (Apply_matrix qubits vmat) = True"
| "is_apply (Apply_diagonal_matrix qubits vmat) = True"
| "is_apply (Apply_mcx qubits) = True"

text \<open>
  The vectorised \<open>dim \<times> dim\<close> matrix of the permutation that swaps the basis states
  \<open>a\<close> and \<open>b\<close> and fixes every other one: entry \<open>r * dim + c\<close> is \<open>one\<close> where the
  permutation sends \<open>r\<close> to \<open>c\<close>, and \<open>zero\<close> elsewhere.
\<close>

definition swap_matrix :: "'c \<Rightarrow> 'c \<Rightarrow> nat \<Rightarrow> nat \<Rightarrow> nat \<Rightarrow> 'c cvector_t" where
  "swap_matrix zero one dim a b =
     map (\<lambda>i. if (if i div dim = a then b else if i div dim = b then a else i div dim) = i mod dim
               then one else zero) [0..<dim * dim]"

text \<open>The cells the loop of \<^verbatim>\<open>measure_reset_update\<close> has set to one after \<open>t\<close> rounds.\<close>

definition perm_cell :: "nat \<Rightarrow> nat \<Rightarrow> nat \<Rightarrow> nat \<Rightarrow> nat \<Rightarrow> bool" where
  "perm_cell D a b t i \<longleftrightarrow>
     (i div D = a \<and> i mod D = b) \<or> (i div D = b \<and> i mod D = a) \<or>
     (i div D = i mod D \<and> i div D < t \<and> i div D \<noteq> a \<and> i div D \<noteq> b)"

text \<open>
  A small concrete collaborator, on which the model runs to a value: doubles and complex
  numbers are integers, the register is the list of the vectors applied to it, and the
  generator is the list of the deviates it will return.
\<close>

definition test_arith :: "(int, int) arith" where
  "test_arith =
     \<lparr>d_zero = 0, d_one = 1, d_add = (+), d_sub = (-), d_div = (div), d_sqrt = (\<lambda>x. x),
      d_gt = (\<lambda>a b. b < a), c_of_double = (\<lambda>x. x), c_mul = (*), c_add = (+)\<rparr>"

definition test_collab :: "(int list list, int list, int, int) collab" where
  "test_collab =
     \<lparr>rng_rand = (\<lambda>g. case g of [] \<Rightarrow> (0, []) | x # xs \<Rightarrow> (x, xs)),
      vectorize_matrix = concat,
      scalar_multiply_inplace = (\<lambda>v x. map (\<lambda>y. x * y) v),
      scalar_times_matrix = (\<lambda>x m. map (map (\<lambda>y. x * y)) m),
      block_diagonal_matrix = (\<lambda>chunk n qs d. (qs, d)),
      qreg_norm = (\<lambda>q qs v. sum_list v),
      qreg_apply_matrix = (\<lambda>qs v q. q @ [v]),
      qreg_apply_diagonal_matrix = (\<lambda>qs v q. q @ [v]),
      qreg_apply_mcx = (\<lambda>qs q. q @ [[]]),
      qreg_num_qubits = (\<lambda>q. 2),
      qreg_chunk_index = (\<lambda>q. 0),
      qreg_support_global_indexing = (\<lambda>q. True)\<rparr>"

definition test_state :: "(int list list, int) state" where
  "test_state = \<lparr>qreg = [], num_global_qubits = 2, call_log = []\<rparr>"

section \<open>Auxiliary notions for density extraction\<close>

text \<open>A matrix of \<open>R\<close> rows of \<open>C\<close> cells.\<close>

definition rect :: "nat \<Rightarrow> nat \<Rightarrow> 'c cmatrix_t \<Rightarrow> bool" where
  "rect R C m \<longleftrightarrow> length m = R \<and> (\<forall>r<R. length (m ! r) = C)"

text \<open>\<open>amp[i] * conj(amp[j])\<close>, with the conversions to \<^verbatim>\<open>complex_t\<close> the source makes.\<close>

definition amp_term ::
  "('r, 'c) arith \<Rightarrow> ('q, 'r, 'a, 'c) density_collab \<Rightarrow> 'a list \<Rightarrow> nat \<Rightarrow> nat \<Rightarrow> 'c" where
  "amp_term A D vec i j = c_mul A (complex_t D (vec ! i)) (complex_t D (std_conj D (vec ! j)))"

text \<open>
  Entry \<open>(row, col)\<close> of the outer product of the amplitudes addressed by the index block
  of the reduced index \<open>k\<close>.
\<close>

definition block_term ::
  "('r, 'c) arith \<Rightarrow> ('q, 'r, 'a, 'c) density_collab \<Rightarrow> 'a list \<Rightarrow> reg_t \<Rightarrow> nat \<Rightarrow> nat \<Rightarrow> nat \<Rightarrow> 'c" where
  "block_term A D vec qubits k row col =
     (let inds = the (indexes qubits (sort qubits) (of_nat k))
      in amp_term A D vec (unat (inds ! row)) (unat (inds ! col)))"

text \<open>
  The sum of the outer products of the blocks \<open>0, \<dots>, t - 1\<close>, in the order the source
  adds them: the block of 0 first, then each further block added to the sum so far.
\<close>

definition partial_density ::
  "('r, 'c) arith \<Rightarrow> ('q, 'r, 'a, 'c) density_collab \<Rightarrow> 'a list \<Rightarrow> reg_t \<Rightarrow> nat \<Rightarrow> 'c cmatrix_t" where
  "partial_density A D vec qubits t =
     map (\<lambda>row. map (\<lambda>col.
            foldl (c_add A) (block_term A D vec qubits 0 row col)
              (map (\<lambda>k. block_term A D vec qubits k row col) [1..<t]))
          [0..<2 ^ length qubits])
       [0..<2 ^ length qubits]"

text \<open>
  A concrete register for density extraction: the register is its list of amplitudes
  (integers), of two qubits; conjugation is negation, so that it shows in a result.
\<close>

definition test_density :: "(int list, int, int, int) density_collab" where
  "test_density =
     \<lparr>norm_all = sum_list, copy_to_vector = (\<lambda>q. q), num_qubits = (\<lambda>q. 2),
      complex_t = (\<lambda>x. x), std_conj = (\<lambda>x. - x)\<rparr>"

section \<open>The tables and the loop of index0\<close>

lemma BITS_table_eq: "BITS_table = map (\<lambda>i. push_bit i 1) [0..<64]"
  unfolding BITS_table_def by code_simp

lemma MASKS_table_eq: "MASKS_table = map (\<lambda>i. mask i) [0..<64]"
  unfolding MASKS_table_def by code_simp

lemma BITS_eq: "BITS i = (if i < 64 then Some (push_bit i 1) else None)"
  by (simp add: BITS_def BITS_table_eq)

lemma MASKS_eq: "MASKS i = (if i < 64 then Some (mask i) else None)"
  by (simp add: MASKS_def MASKS_table_eq)

lemma index0_loop_fold:
  "\<forall>q\<in>set qs. q < 63 \<Longrightarrow> index0_loop qs w = Some (fold ins0 qs w)"
  by (induction qs arbitrary: w) (simp_all add: MASKS_eq shr_def shl_wrap_def ins0_def)



lemma bit_ins0:
  "bit (ins0 q w) n = (n < 64 \<and> (if n < q then bit w n else if n = q then False else bit w (n - 1)))"
  by (auto simp del: push_bit_Suc simp add: ins0_def bit_push_bit_iff bit_drop_bit_eq bit_and_iff bit_or_iff bit_mask_iff dest: bit_imp_le_length)

lemma bit_del0:
  "bit (del0 q w) n = (n < 64 \<and> (if n < q then bit w n else bit w (n + 1)))"
  by (auto simp add: del0_def bit_push_bit_iff bit_drop_bit_eq bit_and_iff bit_or_iff bit_mask_iff dest: bit_imp_le_length)

lemma del0_ins0:
  assumes "\<not> bit w 63"
  shows "del0 q (ins0 q w) = w"
proof (rule bit_eqI)
  fix n
  have top: "bit w n \<Longrightarrow> n < 63"
  proof -
    assume b: "bit w n"
    then have "n < 64" by (auto dest: bit_imp_le_length)
    moreover have "n \<noteq> 63" using b assms by auto
    ultimately show "n < 63" by arith
  qed
  show "bit (del0 q (ins0 q w)) n = bit w n"
    using top by (auto simp add: bit_del0 bit_ins0 dest: bit_imp_le_length)
qed

lemma ins0_del0: "ins0 q (del0 q w) = unset_bit q w"
  by (rule bit_eqI) (auto simp add: bit_del0 bit_ins0 bit_unset_bit_iff dest: bit_imp_le_length)

lemma fold_ins0_high:
  "\<forall>n\<ge>B. \<not> bit w n \<Longrightarrow> \<forall>n\<ge>B + length qs. \<not> bit (fold ins0 qs w) n"
proof (induction qs arbitrary: w B)
  case Nil
  then show ?case by simp
next
  case (Cons q qs)
  have "\<forall>n\<ge>Suc B. \<not> bit (ins0 q w) n"
    using Cons.prems by (auto simp add: bit_ins0)
  from Cons.IH [OF this] show ?case by simp
qed

lemma fold_ins0_zero:
  "sorted_wrt (<) qs \<Longrightarrow> \<forall>z\<in>Z. \<not> bit w z \<Longrightarrow> \<forall>z\<in>Z. \<forall>q\<in>set qs. z < q
     \<Longrightarrow> \<forall>z\<in>Z \<union> set qs. \<not> bit (fold ins0 qs w) z"
proof (induction qs arbitrary: w Z)
  case Nil
  then show ?case by simp
next
  case (Cons q qs)
  have 1: "sorted_wrt (<) qs" using Cons.prems(1) by simp
  have 2: "\<forall>z\<in>insert q Z. \<not> bit (ins0 q w) z"
    using Cons.prems by (auto simp add: bit_ins0)
  have 3: "\<forall>z\<in>insert q Z. \<forall>q'\<in>set qs. z < q'"
    using Cons.prems by auto
  from Cons.IH [OF 1 2 3] show ?case by simp
qed

lemma drop_bit_63_eq_0: "\<not> bit (w :: uint_t) 63 \<Longrightarrow> drop_bit 63 w = 0"
proof (rule bit_eqI)
  fix n
  assume h: "\<not> bit w 63"
  have "\<not> bit w (63 + n)"
  proof (cases n)
    case 0
    then show ?thesis using h by simp
  next
    case (Suc m)
    then show ?thesis by (auto dest: bit_imp_le_length)
  qed
  then show "bit (drop_bit 63 w) n = bit (0 :: uint_t) n"
    by (simp add: bit_drop_bit_eq)
qed

lemma shl_wrap_eq_push_bit:
  assumes "q < 64" "\<not> bit (w :: uint_t) 63"
  shows "shl_wrap (drop_bit q w) (q + 1) = push_bit (q + 1) (drop_bit q w)"
proof (cases "q = 63")
  case True
  then show ?thesis using assms(2) by (simp add: shl_wrap_def drop_bit_63_eq_0)
next
  case False
  then have "q < 63" using assms(1) by simp
  then show ?thesis by (simp add: shl_wrap_def)
qed

lemma index0_loop_fold_bounded:
  "\<forall>q\<in>set qs. q < 64 \<Longrightarrow> \<forall>n\<ge>B. \<not> bit w n \<Longrightarrow> B + length qs \<le> 64
   \<Longrightarrow> index0_loop qs w = Some (fold ins0 qs w)"
proof (induction qs arbitrary: w B)
  case Nil
  then show ?case by simp
next
  case (Cons q qs)
  have q: "q < 64" using Cons.prems(1) by simp
  have "B \<le> 63" using Cons.prems(3) by simp
  then have top: "\<not> bit w 63" using Cons.prems(2) by blast
  have step: "shl_wrap (drop_bit q w) (q + 1) OR (w AND mask q) = ins0 q w"
    unfolding ins0_def shl_wrap_eq_push_bit [OF q top] by (rule refl)
  have hi: "\<forall>n\<ge>Suc B. \<not> bit (ins0 q w) n"
    using Cons.prems(2) by (auto simp add: bit_ins0)
  have qs: "\<forall>q\<in>set qs. q < 64" using Cons.prems(1) by simp
  have len: "Suc B + length qs \<le> 64" using Cons.prems(3) by simp
  have "index0_loop (q # qs) w = index0_loop qs (ins0 q w)"
    using q step by (simp add: MASKS_eq shr_def Let_def)
  then show ?case using Cons.IH [OF qs hi len] by simp
qed

lemma fold_del0_ins0:
  "\<forall>n\<ge>B. \<not> bit w n \<Longrightarrow> B + length qs \<le> 64 \<Longrightarrow> fold del0 (rev qs) (fold ins0 qs w) = w"
proof (induction qs arbitrary: B rule: rev_induct)
  case Nil
  then show ?case by simp
next
  case (snoc q qs)
  have "\<forall>n\<ge>B + length qs. \<not> bit (fold ins0 qs w) n"
    using snoc.prems(1) by (rule fold_ins0_high)
  moreover have "B + length qs \<le> 63" using snoc.prems(2) by simp
  ultimately have "\<not> bit (fold ins0 qs w) 63" by blast
  then have "del0 q (ins0 q (fold ins0 qs w)) = fold ins0 qs w" by (rule del0_ins0)
  moreover have "fold del0 (rev qs) (fold ins0 qs w) = w"
    using snoc.IH [OF snoc.prems(1)] snoc.prems(2) by simp
  ultimately show ?case by simp
qed

lemma subset_mask_0 [simp]: "subset_mask qs 0 = 0"
  by (induction qs) simp_all

lemma bit_subset_mask:
  "bit (subset_mask qs m) n = (n < 64 \<and> (\<exists>t<length qs. qs ! t = n \<and> bit m t))"
proof (induction qs arbitrary: m)
  case Nil
  then show ?case by simp
next
  case (Cons q qs)
  have ex: "(\<exists>t<length (q # qs). (q # qs) ! t = n \<and> bit m t)
     = ((q = n \<and> odd m) \<or> (\<exists>t<length qs. qs ! t = n \<and> bit (m div 2) t))"
    (is "?L = ?R")
  proof
    assume ?L
    then obtain t where t: "t < length (q # qs)" "(q # qs) ! t = n" "bit m t" by blast
    show ?R
    proof (cases t)
      case 0
      with t show ?thesis by (simp add: bit_0)
    next
      case (Suc t')
      with t show ?thesis by (auto simp add: bit_Suc)
    qed
  next
    assume ?R
    then show ?L
    proof
      assume "q = n \<and> odd m"
      then have "0 < length (q # qs) \<and> (q # qs) ! 0 = n \<and> bit m 0" by (simp add: bit_0)
      then show ?L by blast
    next
      assume "\<exists>t<length qs. qs ! t = n \<and> bit (m div 2) t"
      then obtain t where "t < length qs" "qs ! t = n" "bit (m div 2) t" by blast
      then have "Suc t < length (q # qs) \<and> (q # qs) ! Suc t = n \<and> bit m (Suc t)"
        by (simp add: bit_Suc)
      then show ?L by blast
    qed
  qed
  show ?case
    unfolding ex by (auto simp add: bit_or_iff Cons.IH bit_exp_iff)
qed

lemma indexes_inner_spec:
  "j \<le> n \<Longrightarrow> 2 * n \<le> length ret \<Longrightarrow>
   indexes_inner n b j ret =
     Some (map (\<lambda>m. if n + j \<le> m \<and> m < 2 * n then (ret ! (m - n)) OR b else ret ! m) [0..<length ret])"
proof (induction n b j ret rule: indexes_inner.induct)
  case (1 n b j ret)
  show ?case
  proof (cases "j < n")
    case False
    with "1.prems" have "j = n" by simp
    then show ?thesis
      by (subst indexes_inner.simps) (auto intro!: nth_equalityI)
  next
    case True
    let ?ret' = "ret[n + j := (ret ! j) OR b]"
    have inb: "n + j < length ret" using True "1.prems" by simp
    have IH: "indexes_inner n b (j + 1) ?ret' =
      Some (map (\<lambda>m. if n + (j + 1) \<le> m \<and> m < 2 * n then (?ret' ! (m - n)) OR b else ?ret' ! m) [0..<length ?ret'])"
      using "1.IH" [OF True inb] True "1.prems" by simp
    have "map (\<lambda>m. if n + (j + 1) \<le> m \<and> m < 2 * n then (?ret' ! (m - n)) OR b else ?ret' ! m) [0..<length ?ret']
       = map (\<lambda>m. if n + j \<le> m \<and> m < 2 * n then (ret ! (m - n)) OR b else ret ! m) [0..<length ret]"
      using True inb by (auto simp add: nth_list_update)
    with IH show ?thesis
      using True inb by (subst indexes_inner.simps) simp
  qed
qed

lemma subset_mask_add:
  "i < length qs \<Longrightarrow> j < 2 ^ i \<Longrightarrow>
   subset_mask qs (2 ^ i + j) = subset_mask qs j OR push_bit (qs ! i) 1"
proof (induction qs arbitrary: i j)
  case Nil
  then show ?case by simp
next
  case (Cons q qs)
  show ?case
  proof (cases i)
    case 0
    with Cons.prems show ?thesis by simp
  next
    case (Suc i')
    have j2: "j div 2 < 2 ^ i'" using Cons.prems(2) Suc by simp
    have i': "i' < length qs" using Cons.prems(1) Suc by simp
    have d: "(2 ^ i + j) div 2 = 2 ^ i' + j div 2" using Suc by simp
    have o: "odd (2 ^ i + j) = odd j" using Suc by simp
    show ?thesis
      using Cons.IH [OF i' j2] Suc
      by (simp only: subset_mask.simps d o nth_Cons_Suc) (simp add: ac_simps)
  qed
qed

lemma unat_push_bit_1: "i < 64 \<Longrightarrow> unat (push_bit i 1 :: uint_t) = 2 ^ i"
proof -
  assume i: "i < 64"
  have "(2 ^ i :: uint_t) = of_nat (2 ^ i)" by simp
  then have "unat (2 ^ i :: uint_t) = take_bit 64 (2 ^ i :: nat)"
    by (simp only: unsigned_of_nat) simp
  also have "\<dots> = 2 ^ i" using i by (simp add: take_bit_nat_eq_self)
  finally show ?thesis by simp
qed

lemma indexes_outer_spec:
  assumes "N \<le> length qubits" "N < 64" "\<forall>t<N. qubits ! t < 64"
    and "i \<le> N" "length ret = 2 ^ N"
    and "\<forall>m<2 ^ i. ret ! m = i0 OR subset_mask qubits m"
  shows "indexes_outer qubits N i ret = Some (map (\<lambda>m. i0 OR subset_mask qubits m) [0..<2 ^ N])"
  using assms
proof (induction qubits N i ret rule: indexes_outer.induct)
  case (1 qubits N i ret)
  show ?case
  proof (cases "i < N")
    case False
    with "1.prems" have "i = N" by simp
    with "1.prems" show ?thesis
      by (subst indexes_outer.simps) (auto intro!: nth_equalityI)
  next
    case True
    let ?n = "2 ^ i :: nat"
    let ?b = "push_bit (qubits ! i) 1 :: uint_t"
    let ?ret' = "map (\<lambda>m. if ?n + 0 \<le> m \<and> m < 2 * ?n then (ret ! (m - ?n)) OR ?b else ret ! m) [0..<length ret]"
    have i64: "i < 64" using True "1.prems"(2) by simp
    have Bi: "BITS i = Some (push_bit i 1)" using i64 by (simp add: BITS_eq)
    have un: "unat (push_bit i 1 :: uint_t) = ?n" using i64 by (rule unat_push_bit_1)
    have atq: "at qubits i = Some (qubits ! i)" using True "1.prems"(1) by (simp add: at_def)
    have Bq: "BITS (qubits ! i) = Some ?b" using True "1.prems"(3) by (simp add: BITS_eq)
    have "Suc i \<le> N" using True by simp
    then have "(2::nat) ^ Suc i \<le> 2 ^ N" by (rule power_increasing) simp
    then have len: "2 * ?n \<le> length ret" using "1.prems"(5) by simp
    have inner: "indexes_inner (unat (push_bit i 1 :: uint_t)) ?b 0 ret = Some ?ret'"
      unfolding un using indexes_inner_spec [of 0 ?n ret ?b] len by simp
    have inv: "\<forall>m<2 ^ (i + 1). ?ret' ! m = i0 OR subset_mask qubits m"
    proof (intro allI impI)
      fix m :: nat assume m: "m < 2 ^ (i + 1)"
      then have ml: "m < length ret" using len by simp
      show "?ret' ! m = i0 OR subset_mask qubits m"
      proof (cases "m < ?n")
        case True
        then show ?thesis using ml "1.prems"(6) by simp
      next
        case False
        then have mm: "m = ?n + (m - ?n)" "m - ?n < ?n" using m by simp_all
        have "subset_mask qubits (?n + (m - ?n)) = subset_mask qubits (m - ?n) OR ?b"
          using subset_mask_add [of i qubits "m - ?n"] True "1.prems"(1) mm(2) by simp
        then have "subset_mask qubits m = subset_mask qubits (m - ?n) OR ?b" using mm(1) by simp
        moreover have "ret ! (m - ?n) = i0 OR subset_mask qubits (m - ?n)"
          using "1.prems"(6) mm(2) by simp
        ultimately show ?thesis using False ml m by (simp add: ac_simps)
      qed
    qed
    have "indexes_outer qubits N (i + 1) ?ret' = Some (map (\<lambda>m. i0 OR subset_mask qubits m) [0..<2 ^ N])"
      using "1.IH" [OF True Bi atq Bq inner "1.prems"(1) "1.prems"(2) "1.prems"(3) _ _ inv]
        True "1.prems"(5) by simp
    then show ?thesis
      using True Bi un atq Bq inner by (subst indexes_outer.simps) simp
  qed
qed

lemma high_bits_imp_less: "(\<forall>n\<ge>M. \<not> bit (w :: uint_t) n) \<Longrightarrow> unat w < 2 ^ M"
proof -
  assume h: "\<forall>n\<ge>M. \<not> bit w n"
  have "take_bit M w = w"
    by (rule bit_eqI) (metis h bit_take_bit_iff not_le)
  then have "unat w = take_bit M (unat w)"
    by (metis unsigned_take_bit_eq)
  then show ?thesis by (metis take_bit_nat_less_exp)
qed

lemma less_imp_high_bits: "unat (w :: uint_t) < 2 ^ M \<Longrightarrow> \<forall>n\<ge>M. \<not> bit w n"
proof (intro allI impI)
  fix n assume h: "unat w < 2 ^ M" "M \<le> n"
  then have "take_bit M (unat w) = unat w" by (simp add: take_bit_nat_eq_self)
  then have "\<not> bit (unat w) n" using h(2) by (metis bit_take_bit_iff not_le)
  then show "\<not> bit w n" by (simp add: bit_unsigned_iff)
qed


lemma distinct_length_le: "distinct (Q :: nat list) \<Longrightarrow> \<forall>q\<in>set Q. q < B \<Longrightarrow> length Q \<le> B"
proof -
  assume d: "distinct Q" and b: "\<forall>q\<in>set Q. q < B"
  have "set Q \<subseteq> {..<B}" using b by auto
  then have "card (set Q) \<le> card {..<B}" by (intro card_mono) simp_all
  then show ?thesis using d by (simp add: distinct_card)
qed

lemma indexes_closed_gen:
  assumes "length qs \<le> length qubits" "length qs < 64"
    and "\<forall>t<length qs. qubits ! t < 64" "index0 qs k = Some i0"
  shows "indexes qubits qs k =
    Some (map (\<lambda>m. i0 OR subset_mask qubits m) [0..<2 ^ length qs])"
proof -
  let ?N = "length qs"
  let ?ret = "(replicate (2 ^ ?N) 0)[0 := i0]"
  have B: "BITS ?N = Some (push_bit ?N 1)" using assms(2) by (simp add: BITS_eq)
  have u: "unat (push_bit ?N 1 :: uint_t) = 2 ^ ?N" using assms(2) by (rule unat_push_bit_1)
  have "indexes_outer qubits ?N 0 ?ret = Some (map (\<lambda>m. i0 OR subset_mask qubits m) [0..<2 ^ ?N])"
    by (rule indexes_outer_spec [OF assms(1) assms(2) assms(3)]) simp_all
  then show ?thesis
    using u by (simp add: indexes_def B assms(4) Let_def)
qed

lemma indexes_closed:
  assumes "length qs \<le> length qubits" "length qs < 64"
    and "\<forall>t<length qs. qubits ! t < 64" "\<forall>q\<in>set qs. q < 63"
  shows "indexes qubits qs k =
    Some (map (\<lambda>m. fold ins0 qs k OR subset_mask qubits m) [0..<2 ^ length qs])"
proof -
  have i0: "index0 qs k = Some (fold ins0 qs k)"
    using assms(4) by (simp add: index0_def index0_loop_fold)
  show ?thesis by (rule indexes_closed_gen [OF assms(1) assms(2) assms(3) i0])
qed





lemma indexes_fixed_inner_eq: "indexes_fixed_inner n b j ret = indexes_inner n b j ret"
proof (induction n b j ret rule: indexes_inner.induct)
  case (1 n b j ret)
  then show ?case
    by (subst indexes_fixed_inner.simps, subst indexes_inner.simps) simp
qed

lemma indexes_fixed_outer_eq: "indexes_fixed_outer qs N i ret = indexes_outer qs N i ret"
proof (induction qs N i ret rule: indexes_outer.induct)
  case (1 qs N i ret)
  show ?case
    apply (subst indexes_fixed_outer.simps)
    apply (subst indexes_outer.simps)
    using 1 by (auto simp add: indexes_fixed_inner_eq split: bind_splits)
qed

lemma shl_1_BITS: "shl 1 N = BITS N"
  by (simp add: shl_def BITS_eq)

lemma bit_fold_unset:
  "bit (fold unset_bit qs (w :: uint_t)) n = (bit w n \<and> n \<notin> set qs)"
  by (induction qs arbitrary: w) (auto simp add: bit_unset_bit_iff)

lemma del0_unset_commute:
  "q < q' \<Longrightarrow> del0 q' (unset_bit q w) = unset_bit q (del0 q' w)"
  by (rule bit_eqI) (auto simp add: bit_del0 bit_unset_bit_iff)

lemma fold_del0_unset_commute:
  "\<forall>q'\<in>set l. q < q' \<Longrightarrow> fold del0 l (unset_bit q w) = unset_bit q (fold del0 l w)"
  by (induction l arbitrary: w) (simp_all add: del0_unset_commute)

lemma fold_ins0_del0:
  "sorted_wrt (<) qs \<Longrightarrow> fold ins0 qs (fold del0 (rev qs) f) = fold unset_bit qs f"
proof (induction qs arbitrary: f)
  case Nil
  then show ?case by simp
next
  case (Cons q qs)
  have s: "sorted_wrt (<) qs" and lt: "\<forall>q'\<in>set (rev qs). q < q'" using Cons.prems by auto
  have "fold ins0 (q # qs) (fold del0 (rev (q # qs)) f)
      = fold ins0 qs (ins0 q (del0 q (fold del0 (rev qs) f)))" by simp
  also have "\<dots> = fold ins0 qs (unset_bit q (fold del0 (rev qs) f))" by (simp add: ins0_del0)
  also have "\<dots> = fold ins0 qs (fold del0 (rev qs) (unset_bit q f))"
    using fold_del0_unset_commute [OF lt] by simp
  also have "\<dots> = fold unset_bit qs (unset_bit q f)" by (rule Cons.IH [OF s])
  finally show ?case by simp
qed

lemma fold_del0_high:
  "sorted_wrt (<) qs \<Longrightarrow> \<forall>q\<in>set qs. q < B \<Longrightarrow> \<forall>n\<ge>B. \<not> bit f n
   \<Longrightarrow> \<forall>n\<ge>B - length qs. \<not> bit (fold del0 (rev qs) f) n"
proof (induction qs arbitrary: B f rule: rev_induct)
  case Nil
  then show ?case by simp
next
  case (snoc q qs)
  have s: "sorted_wrt (<) qs" and lt: "\<forall>q'\<in>set qs. q' < q" and qB: "q < B"
    using snoc.prems(1,2) by (auto simp add: sorted_wrt_append)
  have b: "\<forall>q'\<in>set qs. q' < B - 1" using lt qB by auto
  have h: "\<forall>n\<ge>B - 1. \<not> bit (del0 q f) n"
    using snoc.prems(3) qB by (auto simp add: bit_del0)
  from snoc.IH [OF s b h] show ?case by simp
qed

section \<open>Claims about the index engine\<close>




text \<open>
  C2. The fixed-size \<^verbatim>\<open>indexes<N>\<close> and the variable-size \<^verbatim>\<open>indexes\<close> return the same
  block, element for element, for every qubit list, every list passed as its sorted copy
  (an array of \<open>N\<close> entries) and every reduced index; where one has no defined result
  the other has none either.
\<close>

theorem indexes_fixed_eq_indexes:
  "length qubits_sorted = N \<Longrightarrow> indexes_fixed N qs qubits_sorted k = indexes qs qubits_sorted k"
  by (simp add: indexes_fixed_def indexes_def shl_1_BITS indexes_fixed_outer_eq Let_def)

theorem indexes_fixed_eq_indexes_witness:
  "length [1, 4 :: nat] = 2 \<and> indexes_fixed 2 [4, 1] [1, 4] 77 = indexes [4, 1] [1, 4] 77"
  using indexes_fixed_eq_indexes [of "[1, 4]" 2 "[4, 1]" 77] by simp

text \<open>
  C3. For \<^verbatim>\<open>qubits = qubits_sorted = [1, 4]\<close> and \<^verbatim>\<open>k = 77\<close>, \<^verbatim>\<open>index0\<close> returns 297 and
  \<^verbatim>\<open>indexes\<close> returns the block 297, 299, 313, 315 in that order.
\<close>

theorem indexes_example:
  "index0 [1, 4] 77 = Some 297 \<and> indexes [1, 4] [1, 4] 77 = Some [297, 299, 313, 315]"
  by code_simp

text \<open>
  C4, as the specification states it, fails when \<open>M\<close> is above 64. With \<open>M = 65\<close>
  and the qubit list \<open>[0]\<close> the reduced index \<open>2 ^ 63\<close> is below \<open>2 ^ (M - 1)\<close>,
  but \<^verbatim>\<open>index0\<close> shifts its top bit out of the 64-bit word and returns 0, as it does
  for \<open>k = 0\<close>: reading back cannot reproduce \<open>k\<close>, and the full index 0 has two
  decompositions.
\<close>

theorem index0_bijection_counterexample:
  "sorted [0::nat] \<and> distinct [0::nat] \<and> (0::nat) < 64 \<and> (0::nat) + 1 \<le> 65 \<and>
   unat (2 ^ 63 :: uint_t) < 2 ^ (65 - length [0::nat]) \<and>
   unat (0 :: uint_t) < 2 ^ (65 - length [0::nat]) \<and>
   index0 [0] (2 ^ 63) = Some 0 \<and> spectator_bits [0] 0 \<noteq> 2 ^ 63 \<and>
   index0 [0] 0 = Some 0 \<and> (2 ^ 63 :: uint_t) \<noteq> 0"
  by (simp add: index0_def MASKS_eq shr_def shl_wrap_def spectator_bits_def del0_def)

text \<open>
  C4 (amended: \<open>M \<le> 64\<close>, unless the list is empty). For a sorted, duplicate-free
  qubit list with every position below 64 and below \<open>M\<close>, where \<open>M \<le> 64\<close> or the
  list is empty: deleting the inserted bits of \<^verbatim>\<open>index0(Q_sorted, k)\<close> gives back \<open>k\<close>
  for every \<open>k < 2 ^ (M - N)\<close>, and every full index \<open>f < 2 ^ M\<close> is
  \<^verbatim>\<open>index0(Q_sorted, k) | pattern\<close> for exactly one pair of a reduced index
  \<open>k < 2 ^ (M - N)\<close> and a pattern whose set bits are all at positions of the list.
\<close>

theorem index0_bijection:
  assumes "sorted Qs" "distinct Qs" "\<forall>q\<in>set Qs. q < 64" "\<forall>q\<in>set Qs. q < M"
    and "M \<le> 64 \<or> Qs = []"
  shows "(\<forall>k. unat k < 2 ^ (M - length Qs) \<longrightarrow>
            (\<exists>f. index0 Qs k = Some f \<and> spectator_bits Qs f = k)) \<and>
         (\<forall>f. unat f < 2 ^ M \<longrightarrow>
            (\<exists>!kp. unat (fst kp) < 2 ^ (M - length Qs) \<and>
                   (\<forall>n. bit (snd kp) n \<longrightarrow> n \<in> set Qs) \<and>
                   (\<exists>i. index0 Qs (fst kp) = Some i \<and> f = i OR snd kp)))"
proof -
  let ?N = "length Qs"
  have ss: "sorted_wrt (<) Qs" using assms(1,2) by (simp add: strict_sorted_iff)
  have NM: "?N \<le> M" using assms(2,4) by (rule distinct_length_le)
  have i0: "index0 Qs k = Some (fold ins0 Qs k)" if k: "unat k < 2 ^ (M - ?N)" for k
  proof (cases "Qs = []")
    case True
    then show ?thesis by (simp add: index0_def)
  next
    case False
    then have "(M - ?N) + ?N \<le> 64" using NM assms(5) by simp
    with index0_loop_fold_bounded [OF assms(3) less_imp_high_bits [OF k]] show ?thesis
      by (simp add: index0_def)
  qed
  have rdb: "spectator_bits Qs (fold ins0 Qs k) = k" if k: "unat k < 2 ^ (M - ?N)" for k
  proof (cases "Qs = []")
    case True
    then show ?thesis by (simp add: spectator_bits_def)
  next
    case False
    then have "(M - ?N) + ?N \<le> 64" using NM assms(5) by simp
    with fold_del0_ins0 [OF less_imp_high_bits [OF k]] show ?thesis
      by (simp add: spectator_bits_def)
  qed
  have zero: "\<forall>q\<in>set Qs. \<not> bit (fold ins0 Qs k) q" for k
    using fold_ins0_zero [OF ss, of "{}" k] by simp
  have A: "\<forall>k. unat k < 2 ^ (M - ?N) \<longrightarrow> (\<exists>f. index0 Qs k = Some f \<and> spectator_bits Qs f = k)"
    using i0 rdb by blast
  have B: "\<exists>!kp. unat (fst kp) < 2 ^ (M - ?N) \<and> (\<forall>n. bit (snd kp) n \<longrightarrow> n \<in> set Qs) \<and>
             (\<exists>i. index0 Qs (fst kp) = Some i \<and> f = i OR snd kp)"
    if f: "unat f < 2 ^ M" for f
  proof -
    let ?c = "fold unset_bit Qs f"
    let ?k = "spectator_bits Qs ?c"
    let ?p = "f AND NOT ?c"
    have ch: "\<forall>n\<ge>M. \<not> bit ?c n"
      using less_imp_high_bits [OF f] by (simp add: bit_fold_unset)
    have kb: "unat ?k < 2 ^ (M - ?N)"
      unfolding spectator_bits_def
      by (rule high_bits_imp_less) (rule fold_del0_high [OF ss assms(4) ch])
    have cc: "fold unset_bit Qs ?c = ?c"
      by (rule bit_eqI) (simp add: bit_fold_unset)
    have ik: "fold ins0 Qs ?k = ?c"
      unfolding spectator_bits_def using fold_ins0_del0 [OF ss, of ?c] cc by simp
    have fp: "f = ?c OR ?p"
      by (rule bit_eqI) (auto simp add: bit_or_iff bit_and_iff bit_not_iff bit_fold_unset)
    have ps: "\<forall>n. bit ?p n \<longrightarrow> n \<in> set Qs"
      by (auto simp add: bit_and_iff bit_not_iff bit_fold_unset)
    show ?thesis
    proof (rule ex1I [of _ "(?k, ?p)"])
      show "unat (fst (?k, ?p)) < 2 ^ (M - ?N) \<and> (\<forall>n. bit (snd (?k, ?p)) n \<longrightarrow> n \<in> set Qs) \<and>
             (\<exists>i. index0 Qs (fst (?k, ?p)) = Some i \<and> f = i OR snd (?k, ?p))"
        using kb ps i0 [OF kb] ik fp by simp
    next
      fix kp :: "uint_t \<times> uint_t"
      assume h: "unat (fst kp) < 2 ^ (M - ?N) \<and> (\<forall>n. bit (snd kp) n \<longrightarrow> n \<in> set Qs) \<and>
             (\<exists>i. index0 Qs (fst kp) = Some i \<and> f = i OR snd kp)"
      then have hk: "unat (fst kp) < 2 ^ (M - ?N)" by (rule conjunct1)
      let ?i = "fold ins0 Qs (fst kp)"
      have fe: "f = ?i OR snd kp" using h i0 [OF hk] by auto
      have bf: "bit f n = (bit ?i n \<or> bit (snd kp) n)" for n
        by (subst fe) (simp add: bit_or_iff)
      have sup: "\<forall>n. bit (snd kp) n \<longrightarrow> n \<in> set Qs" using h by blast
      have "snd kp = ?p"
      proof (rule bit_eqI)
        fix n
        show "bit (snd kp) n = bit ?p n"
          using sup zero [of "fst kp"] bf [of n]
          by (auto simp add: bit_and_iff bit_not_iff bit_fold_unset dest: bit_imp_le_length)
      qed
      moreover have ic: "?i = ?c"
      proof (rule bit_eqI)
        fix n
        show "bit ?i n = bit ?c n"
          using sup zero [of "fst kp"] bf [of n]
          by (auto simp add: bit_fold_unset)
      qed
      moreover have "fst kp = ?k"
        using rdb [OF hk] ic by simp
      ultimately show "kp = (?k, ?p)" by (simp add: prod_eq_iff)
    qed
  qed
  show ?thesis using A B by blast
qed

theorem index0_bijection_witness:
  "(\<exists>f. index0 [1, 63] 13 = Some f \<and> spectator_bits [1, 63] f = 13) \<and>
   (\<exists>!kp. unat (fst kp) < 2 ^ (64 - length [1, 63 :: nat]) \<and>
          (\<forall>n. bit (snd kp) n \<longrightarrow> n \<in> set [1, 63]) \<and>
          (\<exists>i. index0 [1, 63] (fst kp) = Some i \<and> 77 = i OR snd kp))"
proof -
  have h: "sorted [1, 63 :: nat]" "distinct [1, 63 :: nat]" "\<forall>q\<in>set [1, 63 :: nat]. q < 64"
    "\<forall>q\<in>set [1, 63 :: nat]. q < 64" "(64 :: nat) \<le> 64 \<or> [1, 63 :: nat] = []"
    by simp_all
  note b = index0_bijection [OF h]
  have "unat (13 :: uint_t) < 2 ^ (64 - length [1, 63 :: nat])" by simp
  with b have 1: "\<exists>f. index0 [1, 63] 13 = Some f \<and> spectator_bits [1, 63] f = 13" by blast
  have "unat (77 :: uint_t) < 2 ^ 64" by simp
  with b have 2: "\<exists>!kp. unat (fst kp) < 2 ^ (64 - length [1, 63 :: nat]) \<and>
          (\<forall>n. bit (snd kp) n \<longrightarrow> n \<in> set [1, 63]) \<and>
          (\<exists>i. index0 [1, 63] (fst kp) = Some i \<and> 77 = i OR snd kp)" by blast
  show ?thesis using 1 2 by (rule conjI)
qed

section \<open>Claims about the traversal primitives\<close>

lemma parity_step:
  "(((of_bool p :: int) XOR (drop_bit q k AND 1)) \<noteq> 0) = (p \<noteq> bit k q)"
proof -
  have "drop_bit q k AND 1 = of_bool (bit k q)"
    by (simp add: and_one_eq bit_iff_odd_drop_bit mod_2_eq_odd)
  then show ?thesis by (cases p; cases "bit k q") simp_all
qed

lemma parity_loop_eq:
  "\<forall>q\<in>set qs. q < 64 \<Longrightarrow> parity_loop qs k p = Some (p \<noteq> odd (length (filter (bit k) qs)))"
proof (induction qs arbitrary: p)
  case Nil
  then show ?case by simp
next
  case (Cons q qs)
  then show ?case by (auto simp add: parity_step)
qed

lemma apply_lambda_MOSQ_loop_eq:
  "\<forall>q\<in>set qubits. q < 64 \<Longrightarrow>
   apply_lambda_MOSQ_loop qubits k stop calls =
     Some (calls @ filter (\<lambda>k. odd (length (filter (bit k) qubits))) [k..stop - 1])"
proof (induction qubits k stop calls rule: apply_lambda_MOSQ_loop.induct)
  case (1 qubits k stop calls)
  show ?case
  proof (cases "k < stop")
    case False
    then show ?thesis by (subst apply_lambda_MOSQ_loop.simps) simp
  next
    case True
    let ?P = "\<lambda>k. odd (length (filter (bit k) qubits))"
    have par: "parity_loop qubits k False = Some (?P k)"
      using parity_loop_eq [OF "1.prems", of k False] by simp
    have up: "[k..stop - 1] = k # [k + 1..stop - 1]" using True by (simp add: upto_rec1)
    have "apply_lambda_MOSQ_loop qubits (k + 1) stop (if ?P k then calls @ [k] else calls)
        = Some ((if ?P k then calls @ [k] else calls) @ filter ?P [k + 1..stop - 1])"
      using "1.IH" [OF True par "1.prems"] .
    then show ?thesis
      using True par up by (subst apply_lambda_MOSQ_loop.simps) simp
  qed
qed

text \<open>
  C10. \<^verbatim>\<open>apply_lambda_MOSQ(start, stop, omp_threads, func, qubits)\<close> calls \<^verbatim>\<open>func(k)\<close>, for
  \<open>k\<close> from \<^verbatim>\<open>start\<close> up to \<^verbatim>\<open>stop - 1\<close>, exactly for the \<open>k\<close> with an odd number of
  set bits at the positions listed in \<^verbatim>\<open>qubits\<close> (the exclusive or of those bits is 1);
  the other \<open>k\<close> are skipped. With \<^verbatim>\<open>omp_threads \<le> 1\<close> the calls are made in
  increasing order of \<open>k\<close>; with more threads the same calls are made, in no fixed
  order. The positions are bit positions of a 64-bit \<open>k\<close>, so they are below 64.
\<close>

theorem apply_lambda_MOSQ_parity:
  assumes "\<forall>q\<in>set qubits. q < 64"
  shows "apply_lambda_MOSQ start stop omp_threads qubits =
    Some (if omp_threads > 1
          then Parallel (mset (filter (\<lambda>k. odd (length (filter (bit k) qubits))) [sint start..sint stop - 1]))
          else Sequential (filter (\<lambda>k. odd (length (filter (bit k) qubits))) [sint start..sint stop - 1]))"
  using apply_lambda_MOSQ_loop_eq [OF assms, of "sint start" "sint stop" "[]"]
  by (simp add: apply_lambda_MOSQ_def)

theorem apply_lambda_MOSQ_parity_witness:
  "apply_lambda_MOSQ 0 8 1 [0, 1] = Some (Sequential [1, 2, 5, 6]) \<and>
   apply_lambda_MOSQ 0 8 4 [0, 1] = Some (Parallel (mset [1, 2, 5, 6]))"
  using apply_lambda_MOSQ_parity [of "[0, 1]" 0 8 1] apply_lambda_MOSQ_parity [of "[0, 1]" 0 8 4]
  by (simp add: upto_rec1)

lemma indexes_defined:
  assumes "length qubits < 64" "\<forall>q\<in>set qubits. q < 63"
  shows "\<exists>blk. indexes qubits (sort qubits) k = Some blk"
proof -
  have "\<forall>t<length qubits. qubits ! t < 64"
  proof (intro allI impI)
    fix t assume "t < length qubits"
    then have "qubits ! t \<in> set qubits" by simp
    then have "qubits ! t < 63" using assms(2) by blast
    then show "qubits ! t < 64" by simp
  qed
  then show ?thesis
    using indexes_closed [of "sort qubits" qubits k] assms by simp
qed

lemma apply_lambda_loop_eq:
  assumes "length qubits < 64" "\<forall>q\<in>set qubits. q < 63"
  shows "\<exists>cs. apply_lambda_loop qubits (sort qubits) k END calls = Some (calls @ cs) \<and>
      map Some cs = map (\<lambda>k. indexes qubits (sort qubits) (word_of_int k)) [k..END - 1]"
proof (induction "nat (END - k)" arbitrary: k calls)
  case 0
  then have "\<not> k < END" by simp
  then show ?case by (subst apply_lambda_loop.simps) simp
next
  case (Suc n)
  then have lt: "k < END" by simp
  obtain blk where blk: "indexes qubits (sort qubits) (word_of_int k) = Some blk"
    using indexes_defined [OF assms] by blast
  have "n = nat (END - (k + 1))" using Suc.hyps(2) by simp
  from Suc.hyps(1) [OF this, of "calls @ [blk]"] obtain cs where
    cs: "apply_lambda_loop qubits (sort qubits) (k + 1) END (calls @ [blk]) = Some ((calls @ [blk]) @ cs)"
      "map Some cs = map (\<lambda>k. indexes qubits (sort qubits) (word_of_int k)) [k + 1..END - 1]"
    by blast
  have up: "[k..END - 1] = k # [k + 1..END - 1]" using lt by (simp add: upto_rec1)
  have "apply_lambda_loop qubits (sort qubits) k END calls = Some (calls @ (blk # cs))"
    using lt blk cs(1) by (subst apply_lambda_loop.simps) simp
  moreover have "map Some (blk # cs) = map (\<lambda>k. indexes qubits (sort qubits) (word_of_int k)) [k..END - 1]"
    using blk cs(2) up by simp
  ultimately show ?case by blast
qed

text \<open>
  C9. With \<^verbatim>\<open>omp_threads \<le> 1\<close>, \<^verbatim>\<open>apply_lambda(start, stop, omp_threads, func, qubits)\<close>
  calls \<^verbatim>\<open>func\<close> once for each reduced index \<open>k\<close> from \<^verbatim>\<open>start\<close> up to
  \<^verbatim>\<open>(stop >> |qubits|) - 1\<close>, in increasing order of \<open>k\<close>, each time on the block
  \<^verbatim>\<open>indexes(qubits, sorted(qubits), k)\<close> for the one sorted copy made before the loop.
  The bounds are read as the loop reads them (as \<^verbatim>\<open>int_t\<close>); the shift and the blocks
  are defined because the list has fewer than 64 entries, all below 63.
\<close>

theorem apply_lambda_sequential:
  assumes "omp_threads \<le> 1" "length qubits < 64" "\<forall>q\<in>set qubits. q < 63"
  shows "\<exists>calls. apply_lambda start stop omp_threads qubits = Some (Sequential calls) \<and>
      map Some calls = map (\<lambda>k. indexes qubits (sort qubits) (word_of_int k))
        [sint start..sint (drop_bit (length qubits) stop) - 1]"
proof -
  obtain cs where
    cs: "apply_lambda_loop qubits (sort qubits) (sint start) (sint (drop_bit (length qubits) stop)) [] = Some ([] @ cs)"
      "map Some cs = map (\<lambda>k. indexes qubits (sort qubits) (word_of_int k))
        [sint start..sint (drop_bit (length qubits) stop) - 1]"
    using apply_lambda_loop_eq [OF assms(2,3)] by blast
  have "\<not> omp_threads > 1" using assms(1) by (simp add: not_less)
  then have "apply_lambda start stop omp_threads qubits = Some (Sequential cs)"
    using cs(1) assms(2) by (simp add: apply_lambda_def shr_def Let_def)
  then show ?thesis using cs(2) by blast
qed

theorem apply_lambda_sequential_witness:
  "\<exists>calls. apply_lambda 0 16 1 [2, 0] = Some (Sequential calls) \<and>
      map Some calls = map (\<lambda>k. indexes [2, 0] (sort [2, 0]) (word_of_int k))
        [sint (0 :: uint_t)..sint (drop_bit (length [2, 0 :: nat]) (16 :: uint_t)) - 1]"
  using apply_lambda_sequential [of 1 "[2, 0]" 0 16] by simp

section \<open>Lemmas for the state layer\<close>

lemma kraus_probs_log [simp]:
  "kraus_probs E qubits Ks (s\<lparr>call_log := l\<rparr>) = kraus_probs E qubits Ks s"
  by (simp add: kraus_probs_def)

lemma kraus_accum_Cons:
  "kraus_accum A accum (p # ps) (Suc j) = kraus_accum A (d_add A accum p) ps j"
  by (simp add: kraus_accum_def)

lemma kraus_accum_0: "kraus_accum A accum (p # ps) 0 = d_add A accum p"
  by (simp add: kraus_accum_def)

lemma apply_kraus_loop_none:
  "\<forall>i<length Ks. \<not> d_gt A (kraus_accum A accum (kraus_probs E qubits Ks s) i) r \<Longrightarrow>
   apply_kraus_loop A E qubits r Ks accum s =
     Some (foldl (d_add A) accum (kraus_probs E qubits Ks s), False,
           s\<lparr>call_log := call_log s @ kraus_norms E qubits Ks\<rparr>)"
proof (induction Ks arbitrary: accum s)
  case Nil
  then show ?case by (simp add: kraus_probs_def kraus_norms_def)
next
  case (Cons K Ks)
  let ?v = "vectorize_matrix E K"
  let ?p = "qreg_norm E (qreg s) qubits ?v"
  let ?s1 = "s\<lparr>call_log := call_log s @ [Norm qubits ?v]\<rparr>"
  have ps: "kraus_probs E qubits (K # Ks) s = ?p # kraus_probs E qubits Ks s"
    by (simp add: kraus_probs_def)
  have 0: "\<not> d_gt A (d_add A accum ?p) r"
    using Cons.prems [rule_format, of 0] by (simp add: ps kraus_accum_0)
  have "\<forall>i<length Ks. \<not> d_gt A (kraus_accum A (d_add A accum ?p) (kraus_probs E qubits Ks s) i) r"
  proof (intro allI impI)
    fix i assume "i < length Ks"
    then show "\<not> d_gt A (kraus_accum A (d_add A accum ?p) (kraus_probs E qubits Ks s) i) r"
      using Cons.prems [rule_format, of "Suc i"] by (simp add: ps kraus_accum_Cons)
  qed
  from Cons.IH [of "d_add A accum ?p" ?s1] this 0 show ?case
    by (simp add: call_norm_def ps kraus_norms_def Let_def)
qed

lemma apply_kraus_loop_trigger:
  "j < length Ks \<Longrightarrow>
   \<forall>i<j. \<not> d_gt A (kraus_accum A accum (kraus_probs E qubits Ks s) i) r \<Longrightarrow>
   d_gt A (kraus_accum A accum (kraus_probs E qubits Ks s) j) r \<Longrightarrow>
   apply_kraus_loop A E qubits r Ks accum s =
     map_option (\<lambda>s2. (kraus_accum A accum (kraus_probs E qubits Ks s) j, True, s2))
       (apply_matrix E qubits
          (scalar_multiply_inplace E (vectorize_matrix E (Ks ! j))
             (d_div A (d_one A) (d_sqrt A (kraus_probs E qubits Ks s ! j))))
          (s\<lparr>call_log := call_log s @ kraus_norms E qubits (take (Suc j) Ks)\<rparr>))"
proof (induction Ks arbitrary: j accum s)
  case Nil
  then show ?case by simp
next
  case (Cons K Ks)
  let ?v = "vectorize_matrix E K"
  let ?p = "qreg_norm E (qreg s) qubits ?v"
  let ?s1 = "s\<lparr>call_log := call_log s @ [Norm qubits ?v]\<rparr>"
  have ps: "kraus_probs E qubits (K # Ks) s = ?p # kraus_probs E qubits Ks s"
    by (simp add: kraus_probs_def)
  show ?case
  proof (cases j)
    case 0
    then have "d_gt A (d_add A accum ?p) r" using Cons.prems(3) by (simp add: ps kraus_accum_0)
    then show ?thesis
      using 0 by (simp add: call_norm_def ps kraus_accum_0 kraus_norms_def Let_def map_option_case split: option.splits)
  next
    case (Suc j')
    have 0: "\<not> d_gt A (d_add A accum ?p) r"
      using Cons.prems(2) [rule_format, of 0] Suc by (simp add: ps kraus_accum_0)
    have a: "j' < length Ks" using Cons.prems(1) Suc by simp
    have b: "\<forall>i<j'. \<not> d_gt A (kraus_accum A (d_add A accum ?p) (kraus_probs E qubits Ks s) i) r"
    proof (intro allI impI)
      fix i assume "i < j'"
      then show "\<not> d_gt A (kraus_accum A (d_add A accum ?p) (kraus_probs E qubits Ks s) i) r"
        using Cons.prems(2) [rule_format, of "Suc i"] Suc by (simp add: ps kraus_accum_Cons)
    qed
    have c: "d_gt A (kraus_accum A (d_add A accum ?p) (kraus_probs E qubits Ks s) j') r"
      using Cons.prems(3) Suc by (simp add: ps kraus_accum_Cons)
    from Cons.IH [of j' "d_add A accum ?p" ?s1] a b c 0 Suc show ?thesis
      by (simp add: call_norm_def ps kraus_accum_Cons kraus_norms_def Let_def)
  qed
qed

lemma for_loop_fold:
  "for_loop j b body s = fold (\<lambda>i acc. Option.bind acc (body i)) [j..<b] (Some s)"
proof (induction j b body s rule: for_loop.induct)
  case (1 j b body s)
  show ?case
  proof (cases "j < b")
    case False
    then show ?thesis by (subst for_loop.simps) simp
  next
    case True
    have fn: "fold (\<lambda>i acc. Option.bind acc (body i)) xs None = None" for xs
      by (induction xs) simp_all
    show ?thesis
    proof (cases "body j s")
      case None
      then show ?thesis using True by (subst for_loop.simps) (simp add: upt_conv_Cons fn)
    next
      case (Some s')
      then show ?thesis
        using True "1.IH" [OF True Some] by (subst for_loop.simps) (simp add: upt_conv_Cons)
    qed
  qed
qed

lemma for_loop_Suc:
  "j \<le> b \<Longrightarrow> for_loop j (Suc b) body s = Option.bind (for_loop j b body s) (body b)"
  by (simp add: for_loop_fold)

lemma for_loop_empty: "for_loop j j body s = Some s"
  by (subst for_loop.simps) simp

lemma unat_mul_add:
  assumes "N < 32" "a < 2 ^ N" "b < 2 ^ N"
  shows "unat ((of_nat a :: uint_t) * push_bit N 1 + of_nat b) = a * 2 ^ N + b"
proof -
  have "a * 2 ^ N + b < 2 ^ N * 2 ^ N"
  proof -
    have "a * 2 ^ N + b < a * 2 ^ N + 2 ^ N" using assms(3) by simp
    also have "\<dots> = (a + 1) * 2 ^ N" by simp
    also have "\<dots> \<le> 2 ^ N * 2 ^ N" using assms(2) by (intro mult_right_mono) simp_all
    finally show ?thesis .
  qed
  also have "\<dots> = (2::nat) ^ (N + N)" by (simp add: power_add)
  also have "\<dots> \<le> 2 ^ 64" using assms(1) by (intro power_increasing) simp_all
  finally have lt: "a * 2 ^ N + b < 2 ^ 64" .
  have "(of_nat a :: uint_t) * push_bit N 1 + of_nat b = of_nat (a * 2 ^ N + b)"
    by (simp add: push_bit_eq_mult)
  then have "unat ((of_nat a :: uint_t) * push_bit N 1 + of_nat b) = (a * 2 ^ N + b) mod 2 ^ 64"
    by (simp only: unat_of_nat) simp
  then show ?thesis using lt by simp
qed

lemma unat_dim_sq:
  assumes "N < 32"
  shows "unat ((push_bit N 1 :: uint_t) * push_bit N 1) = 2 ^ N * 2 ^ N"
proof -
  have "(2::nat) ^ N * 2 ^ N = 2 ^ (N + N)" by (simp add: power_add)
  also have "\<dots> < 2 ^ 64" using assms by (intro power_strict_increasing) simp_all
  finally have lt: "(2::nat) ^ N * 2 ^ N < 2 ^ 64" .
  have "(push_bit N 1 :: uint_t) * push_bit N 1 = of_nat (2 ^ N * 2 ^ N)"
    by (simp add: push_bit_eq_mult)
  then have "unat ((push_bit N 1 :: uint_t) * push_bit N 1) = (2 ^ N * 2 ^ N) mod 2 ^ 64"
    by (simp only: unat_of_nat) simp
  then show ?thesis using lt by simp
qed

lemma of_nat_eq_iff_unat: "j < 2 ^ 64 \<Longrightarrow> ((of_nat j :: uint_t) = w) = (j = unat w)"
proof -
  assume j: "j < 2 ^ 64"
  have u: "unat (of_nat j :: uint_t) = j" using j by (simp add: unat_of_nat)
  show ?thesis
  proof
    assume "(of_nat j :: uint_t) = w" then show "j = unat w" using u by simp
  next
    assume "j = unat w" then show "(of_nat j :: uint_t) = w" by simp
  qed
qed

lemma divmod_eq: "c < (D::nat) \<Longrightarrow> (i = r * D + c) = (i div D = r \<and> i mod D = c)"
proof
  assume "c < D" "i = r * D + c"
  then show "i div D = r \<and> i mod D = c" by simp
next
  assume "i div D = r \<and> i mod D = c"
  then show "i = r * D + c" by (metis div_mult_mod_eq)
qed

lemma perm_loop_inv:
  fixes A :: "('r, 'c) arith"
  assumes N: "N < 32" and a: "unat fs < 2 ^ N" and b: "unat ms < 2 ^ N"
  defines "D \<equiv> (2::nat) ^ N"
  defines "zero \<equiv> c_of_double A (d_zero A)" and "one \<equiv> c_of_double A (d_one A)"
  assumes t: "t \<le> D"
  shows "for_loop 0 t (perm_body A (push_bit N 1) fs ms)
           ((replicate (D * D) zero)[unat fs * D + unat ms := one, unat ms * D + unat fs := one])
         = Some (map (\<lambda>i. if perm_cell D (unat fs) (unat ms) t i then one else zero) [0..<D * D])"
  using t
proof (induction t)
  case 0
  have "(replicate (D * D) zero)[unat fs * D + unat ms := one, unat ms * D + unat fs := one]
      = map (\<lambda>i. if perm_cell D (unat fs) (unat ms) 0 i then one else zero) [0..<D * D]"
  proof (rule nth_equalityI)
    show "length ((replicate (D * D) zero)[unat fs * D + unat ms := one, unat ms * D + unat fs := one])
        = length (map (\<lambda>i. if perm_cell D (unat fs) (unat ms) 0 i then one else zero) [0..<D * D])"
      by simp
  next
    fix i
    assume "i < length ((replicate (D * D) zero)[unat fs * D + unat ms := one, unat ms * D + unat fs := one])"
    then have i: "i < D * D" by simp
    have 1: "(i = unat fs * D + unat ms) = (i div D = unat fs \<and> i mod D = unat ms)"
      using b unfolding D_def by (rule divmod_eq)
    have 2: "(i = unat ms * D + unat fs) = (i div D = unat ms \<and> i mod D = unat fs)"
      using a unfolding D_def by (rule divmod_eq)
    show "(replicate (D * D) zero)[unat fs * D + unat ms := one, unat ms * D + unat fs := one] ! i
        = map (\<lambda>i. if perm_cell D (unat fs) (unat ms) 0 i then one else zero) [0..<D * D] ! i"
      using i 1 2 by (auto simp add: nth_list_update perm_cell_def)
  qed
  then show ?case by (simp add: for_loop_empty)
next
  case (Suc t)
  let ?f = "\<lambda>t i. if perm_cell D (unat fs) (unat ms) t i then one else zero"
  have tD: "t < D" using Suc.prems by simp
  have IH: "for_loop 0 t (perm_body A (push_bit N 1) fs ms)
           ((replicate (D * D) zero)[unat fs * D + unat ms := one, unat ms * D + unat fs := one])
         = Some (map (?f t) [0..<D * D])"
    using Suc by simp
  have t64: "t < 2 ^ 64"
  proof -
    have "D \<le> 2 ^ 64" unfolding D_def using N by (intro power_increasing) simp_all
    then show ?thesis using tD by simp
  qed
  have idx: "unat ((of_nat t :: uint_t) * push_bit N 1 + of_nat t) = t * D + t"
    unfolding D_def using N tD by (intro unat_mul_add) (simp_all add: D_def)
  have lt: "t * D + t < D * D"
  proof -
    have "t * D + t < t * D + D" using tD by simp
    also have "\<dots> = (t + 1) * D" by simp
    also have "\<dots> \<le> D * D" using tD by (intro mult_right_mono) simp_all
    finally show ?thesis .
  qed
  have body: "perm_body A (push_bit N 1) fs ms t (map (?f t) [0..<D * D])
      = Some (map (?f (Suc t)) [0..<D * D])"
  proof (cases "t \<noteq> unat fs \<and> t \<noteq> unat ms")
    case True
    have "(map (?f t) [0..<D * D])[t * D + t := one] = map (?f (Suc t)) [0..<D * D]"
    proof (rule nth_equalityI)
      show "length ((map (?f t) [0..<D * D])[t * D + t := one]) = length (map (?f (Suc t)) [0..<D * D])"
        by simp
    next
      fix i assume "i < length ((map (?f t) [0..<D * D])[t * D + t := one])"
      then have i: "i < D * D" by simp
      have 3: "(i = t * D + t) = (i div D = t \<and> i mod D = t)" using tD by (rule divmod_eq)
      show "(map (?f t) [0..<D * D])[t * D + t := one] ! i = map (?f (Suc t)) [0..<D * D] ! i"
        using i 3 True by (auto simp add: nth_list_update perm_cell_def less_Suc_eq)
    qed
    then show ?thesis
      using True lt idx t64 by (simp add: perm_body_def store_def of_nat_eq_iff_unat one_def)
  next
    case False
    have "map (?f t) [0..<D * D] = map (?f (Suc t)) [0..<D * D]"
      using False by (auto simp add: perm_cell_def less_Suc_eq)
    moreover have "of_nat t = fs \<or> of_nat t = ms"
      using False t64 by (simp add: of_nat_eq_iff_unat)
    ultimately show ?thesis
      by (auto simp add: perm_body_def)
  qed
  show ?case
    using IH body by (simp add: for_loop_Suc)
qed

lemma perm_cell_final:
  "a \<noteq> b \<Longrightarrow> a < D \<Longrightarrow> b < D \<Longrightarrow>
   map (\<lambda>i. if perm_cell D a b D i then one else zero) [0..<D * D] = swap_matrix zero one D a b"
  unfolding swap_matrix_def
proof (rule map_cong [OF refl])
  fix i assume h: "a \<noteq> b" "a < D" "b < D" and "i \<in> set [0..<D * D]"
  then have "i < D * D" by simp
  then have "i div D < D" by (simp add: less_mult_imp_div_less)
  then show "(if perm_cell D a b D i then one else zero)
     = (if (if i div D = a then b else if i div D = b then a else i div D) = i mod D then one else zero)"
    using h by (auto simp add: perm_cell_def)
qed

lemma sq_ne: "2 \<le> (d::nat) \<Longrightarrow> d * d \<noteq> d"
proof
  assume d: "2 \<le> d" and e: "d * d = d"
  have "d * 1 < d * d" using d by (intro mult_strict_left_mono) simp_all
  with e show False by simp
qed

lemma two_le_pow: "2 \<le> n \<Longrightarrow> 2 \<le> (2::nat) ^ n"
proof -
  assume "2 \<le> n"
  then have "(2::nat) ^ 1 \<le> 2 ^ n" by (intro power_increasing) simp_all
  then show ?thesis by simp
qed

lemma apply_kraus_cases:
  assumes "kmats \<noteq> []"
  shows "(\<forall>j<length kmats - 1.
            (\<forall>i<j. \<not> d_gt A (kraus_accum A (d_zero A) (kraus_probs E qubits (butlast kmats) s) i)
                        (fst (rng_rand E rng))) \<and>
            d_gt A (kraus_accum A (d_zero A) (kraus_probs E qubits (butlast kmats) s) j)
                 (fst (rng_rand E rng)) \<longrightarrow>
            apply_kraus A E qubits kmats rng s =
              map_option (Pair (snd (rng_rand E rng)))
                (apply_matrix E qubits
                   (scalar_multiply_inplace E (vectorize_matrix E (kmats ! j))
                      (d_div A (d_one A) (d_sqrt A (qreg_norm E (qreg s) qubits (vectorize_matrix E (kmats ! j))))))
                   (s\<lparr>call_log := call_log s @ kraus_norms E qubits (take (Suc j) kmats)\<rparr>))) \<and>
         ((\<forall>i<length kmats - 1.
             \<not> d_gt A (kraus_accum A (d_zero A) (kraus_probs E qubits (butlast kmats) s) i)
                     (fst (rng_rand E rng))) \<longrightarrow>
            apply_kraus A E qubits kmats rng s =
              map_option (Pair (snd (rng_rand E rng)))
                (apply_matrix E qubits
                   (vectorize_matrix E
                      (scalar_times_matrix E
                         (c_of_double A (d_div A (d_one A) (d_sqrt A (d_sub A (d_one A)
                            (foldl (d_add A) (d_zero A) (kraus_probs E qubits (butlast kmats) s))))))
                         (last kmats)))
                   (s\<lparr>call_log := call_log s @ kraus_norms E qubits (butlast kmats)\<rparr>)))"
proof (intro conjI allI impI)
  fix j
  assume j: "j < length kmats - 1"
    and h: "(\<forall>i<j. \<not> d_gt A (kraus_accum A (d_zero A) (kraus_probs E qubits (butlast kmats) s) i)
                        (fst (rng_rand E rng))) \<and>
            d_gt A (kraus_accum A (d_zero A) (kraus_probs E qubits (butlast kmats) s) j)
                 (fst (rng_rand E rng))"
  have jl: "j < length (butlast kmats)" using j by simp
  have nj: "butlast kmats ! j = kmats ! j" using jl by (simp add: nth_butlast)
  have tk: "take (Suc j) (butlast kmats) = take (Suc j) kmats"
    using jl by (simp add: take_butlast)
  have pj: "kraus_probs E qubits (butlast kmats) s ! j
      = qreg_norm E (qreg s) qubits (vectorize_matrix E (kmats ! j))"
    using jl nj by (simp add: kraus_probs_def)
  show "apply_kraus A E qubits kmats rng s =
              map_option (Pair (snd (rng_rand E rng)))
                (apply_matrix E qubits
                   (scalar_multiply_inplace E (vectorize_matrix E (kmats ! j))
                      (d_div A (d_one A) (d_sqrt A (qreg_norm E (qreg s) qubits (vectorize_matrix E (kmats ! j))))))
                   (s\<lparr>call_log := call_log s @ kraus_norms E qubits (take (Suc j) kmats)\<rparr>))"
    using assms apply_kraus_loop_trigger [OF jl, of A "d_zero A" E qubits s "fst (rng_rand E rng)"] h
    by (simp add: apply_kraus_def nj tk pj split_beta map_option_case split: option.splits)
next
  assume h: "\<forall>i<length kmats - 1.
             \<not> d_gt A (kraus_accum A (d_zero A) (kraus_probs E qubits (butlast kmats) s) i)
                     (fst (rng_rand E rng))"
  then have "\<forall>i<length (butlast kmats).
             \<not> d_gt A (kraus_accum A (d_zero A) (kraus_probs E qubits (butlast kmats) s) i)
                     (fst (rng_rand E rng))" by simp
  from apply_kraus_loop_none [OF this] assms
  show "apply_kraus A E qubits kmats rng s =
              map_option (Pair (snd (rng_rand E rng)))
                (apply_matrix E qubits
                   (vectorize_matrix E
                      (scalar_times_matrix E
                         (c_of_double A (d_div A (d_one A) (d_sqrt A (d_sub A (d_one A)
                            (foldl (d_add A) (d_zero A) (kraus_probs E qubits (butlast kmats) s))))))
                         (last kmats)))
                   (s\<lparr>call_log := call_log s @ kraus_norms E qubits (butlast kmats)\<rparr>))"
    by (simp add: apply_kraus_def split_beta map_option_case split: option.splits)
qed

lemma apply_matrix_log:
  assumes "length qubits < 64"
  shows "\<exists>s' c. apply_matrix E qubits v s = Some s' \<and> call_log s' = call_log s @ [c] \<and> is_apply c"
proof -
  obtain qi di where bd: "block_diagonal_matrix E (qreg_chunk_index E (qreg s))
      (qreg_num_qubits E (qreg s)) qubits v = (qi, di)"
    by (cases "block_diagonal_matrix E (qreg_chunk_index E (qreg s)) (qreg_num_qubits E (qreg s)) qubits v")
  have d: "\<exists>c. call_log (apply_diagonal_matrix E qubits v s) = call_log s @ [c] \<and> is_apply c"
    by (simp add: apply_diagonal_matrix_def call_apply_diagonal_matrix_def bd)
  have m: "\<exists>c. call_log (call_apply_matrix E qubits v s) = call_log s @ [c] \<and> is_apply c"
    by (simp add: call_apply_matrix_def)
  show ?thesis
  proof (cases "length v = unat (2 ^ length qubits :: uint_t)")
    case True
    then have "apply_matrix E qubits v s = Some (apply_diagonal_matrix E qubits v s)"
      using assms by (simp add: apply_matrix_def shl_def)
    then show ?thesis using d by blast
  next
    case False
    then have "apply_matrix E qubits v s = Some (call_apply_matrix E qubits v s)"
      using assms by (simp add: apply_matrix_def shl_def)
    then show ?thesis using m by blast
  qed
qed

section \<open>Claims about the state layer\<close>

text \<open>
  C5. With a non-empty operator list \<^verbatim>\<open>apply_kraus\<close> draws one deviate \<open>r\<close> and applies
  exactly one operator. The probability \<open>p\<close> of an operator is the \<^verbatim>\<open>norm\<close> of its
  vectorised matrix on the given qubits, and \<^verbatim>\<open>accum\<close> after operator \<open>j\<close> is the sum of
  the probabilities up to \<open>j\<close>. If \<open>j\<close> is the first operator before the last whose
  \<^verbatim>\<open>accum\<close> exceeds \<open>r\<close>, the call is one \<^verbatim>\<open>apply_matrix\<close> of operator \<open>j\<close> rescaled by
  \<open>1 / sqrt p\<close>, after the \<^verbatim>\<open>norm\<close> calls for the operators \<open>0, \<dots>, j\<close> and no other. If
  there is no such operator, the call is one \<^verbatim>\<open>apply_matrix\<close> of the last operator
  rescaled by \<open>1 / sqrt (1 - accum)\<close>, after the \<^verbatim>\<open>norm\<close> calls for all operators but the
  last: the probability of the last operator is never computed. In both cases (for fewer
  than 64 qubits, where \<^verbatim>\<open>apply_matrix\<close> is defined) the calls the invocation makes on the
  register are \<^verbatim>\<open>norm\<close> calls for the first \<open>n\<close> operators, \<open>n\<close> less than their number,
  followed by exactly one call that applies a matrix.
\<close>

theorem apply_kraus_one_operator:
  assumes "kmats \<noteq> []"
  shows "(\<forall>j<length kmats - 1.
            (\<forall>i<j. \<not> d_gt A (kraus_accum A (d_zero A) (kraus_probs E qubits (butlast kmats) s) i)
                        (fst (rng_rand E rng))) \<and>
            d_gt A (kraus_accum A (d_zero A) (kraus_probs E qubits (butlast kmats) s) j)
                 (fst (rng_rand E rng)) \<longrightarrow>
            apply_kraus A E qubits kmats rng s =
              map_option (Pair (snd (rng_rand E rng)))
                (apply_matrix E qubits
                   (scalar_multiply_inplace E (vectorize_matrix E (kmats ! j))
                      (d_div A (d_one A) (d_sqrt A (qreg_norm E (qreg s) qubits (vectorize_matrix E (kmats ! j))))))
                   (s\<lparr>call_log := call_log s @ kraus_norms E qubits (take (Suc j) kmats)\<rparr>))) \<and>
         ((\<forall>i<length kmats - 1.
             \<not> d_gt A (kraus_accum A (d_zero A) (kraus_probs E qubits (butlast kmats) s) i)
                     (fst (rng_rand E rng))) \<longrightarrow>
            apply_kraus A E qubits kmats rng s =
              map_option (Pair (snd (rng_rand E rng)))
                (apply_matrix E qubits
                   (vectorize_matrix E
                      (scalar_times_matrix E
                         (c_of_double A (d_div A (d_one A) (d_sqrt A (d_sub A (d_one A)
                            (foldl (d_add A) (d_zero A) (kraus_probs E qubits (butlast kmats) s))))))
                         (last kmats)))
                   (s\<lparr>call_log := call_log s @ kraus_norms E qubits (butlast kmats)\<rparr>))) \<and>
         (length qubits < 64 \<longrightarrow>
            (\<exists>s' n c. apply_kraus A E qubits kmats rng s = Some (snd (rng_rand E rng), s') \<and>
               n < length kmats \<and>
               call_log s' = call_log s @ kraus_norms E qubits (take n kmats) @ [c] \<and>
               is_apply c))"
proof -
  let ?P = "\<lambda>j. d_gt A (kraus_accum A (d_zero A) (kraus_probs E qubits (butlast kmats) s) j)
                    (fst (rng_rand E rng))"
  note cases = apply_kraus_cases [OF assms, of A E qubits s rng]
  have log: "length qubits < 64 \<longrightarrow>
      (\<exists>s' n c. apply_kraus A E qubits kmats rng s = Some (snd (rng_rand E rng), s') \<and>
         n < length kmats \<and>
         call_log s' = call_log s @ kraus_norms E qubits (take n kmats) @ [c] \<and> is_apply c)"
  proof (rule impI)
    assume N: "length qubits < 64"
    show "\<exists>s' n c. apply_kraus A E qubits kmats rng s = Some (snd (rng_rand E rng), s') \<and>
         n < length kmats \<and>
         call_log s' = call_log s @ kraus_norms E qubits (take n kmats) @ [c] \<and> is_apply c"
    proof (cases "\<exists>j<length kmats - 1. ?P j")
      case True
      define j where "j = (LEAST j. j < length kmats - 1 \<and> ?P j)"
      have j: "j < length kmats - 1 \<and> ?P j"
        unfolding j_def using True by (rule LeastI_ex)
      have least: "\<forall>i<j. \<not> ?P i"
      proof (intro allI impI)
        fix i assume i: "i < j"
        then have "\<not> (i < length kmats - 1 \<and> ?P i)" unfolding j_def by (rule not_less_Least)
        then show "\<not> ?P i" using i j by simp
      qed
      let ?s1 = "s\<lparr>call_log := call_log s @ kraus_norms E qubits (take (Suc j) kmats)\<rparr>"
      let ?v = "scalar_multiply_inplace E (vectorize_matrix E (kmats ! j))
                 (d_div A (d_one A) (d_sqrt A (qreg_norm E (qreg s) qubits (vectorize_matrix E (kmats ! j)))))"
      have jl: "j < length kmats - 1" using j by (rule conjunct1)
      have hp: "(\<forall>i<j. \<not> ?P i) \<and> ?P j" using least j by (intro conjI) simp_all
      have eq: "apply_kraus A E qubits kmats rng s
          = map_option (Pair (snd (rng_rand E rng))) (apply_matrix E qubits ?v ?s1)"
        by (rule cases [THEN conjunct1, rule_format, OF jl hp])
      obtain s' c where sc: "apply_matrix E qubits ?v ?s1 = Some s'"
          "call_log s' = call_log ?s1 @ [c]" "is_apply c"
        using apply_matrix_log [OF N, of E ?v ?s1] by (elim exE conjE)
      have "apply_kraus A E qubits kmats rng s = Some (snd (rng_rand E rng), s') \<and>
         Suc j < length kmats \<and>
         call_log s' = call_log s @ kraus_norms E qubits (take (Suc j) kmats) @ [c] \<and> is_apply c"
        using eq sc jl by simp
      then show ?thesis by (intro exI)
    next
      case False
      then have none: "\<forall>i<length kmats - 1. \<not> ?P i" by simp
      let ?s1 = "s\<lparr>call_log := call_log s @ kraus_norms E qubits (butlast kmats)\<rparr>"
      let ?v = "vectorize_matrix E
                      (scalar_times_matrix E
                         (c_of_double A (d_div A (d_one A) (d_sqrt A (d_sub A (d_one A)
                            (foldl (d_add A) (d_zero A) (kraus_probs E qubits (butlast kmats) s))))))
                         (last kmats))"
      have eq: "apply_kraus A E qubits kmats rng s
          = map_option (Pair (snd (rng_rand E rng))) (apply_matrix E qubits ?v ?s1)"
        by (rule cases [THEN conjunct2, THEN mp, OF none])
      obtain s' c where sc: "apply_matrix E qubits ?v ?s1 = Some s'"
          "call_log s' = call_log ?s1 @ [c]" "is_apply c"
        using apply_matrix_log [OF N, of E ?v ?s1] by (elim exE conjE)
      have "apply_kraus A E qubits kmats rng s = Some (snd (rng_rand E rng), s') \<and>
         length kmats - 1 < length kmats \<and>
         call_log s' = call_log s @ kraus_norms E qubits (take (length kmats - 1) kmats) @ [c] \<and>
         is_apply c"
        using eq sc assms by (simp add: butlast_conv_take)
      then show ?thesis by (intro exI)
    qed
  qed
  show ?thesis
    using cases [THEN conjunct1] cases [THEN conjunct2] log by (intro conjI) assumption+
qed

theorem apply_kraus_one_operator_witness:
  "apply_kraus test_arith test_collab [0, 1] [[[2]], [[3]], [[5]]] [4] test_state =
     Some ([], \<lparr>qreg = [[0]], num_global_qubits = 2,
                call_log = [Norm [0, 1] [2], Norm [0, 1] [3], Apply_matrix [0, 1] [0]]\<rparr>) \<and>
   apply_kraus test_arith test_collab [0, 1] [[[2]], [[3]], [[5]]] [9] test_state =
     Some ([], \<lparr>qreg = [[- 5]], num_global_qubits = 2,
                call_log = [Norm [0, 1] [2], Norm [0, 1] [3], Apply_matrix [0, 1] [- 5]]\<rparr>)"
proof -
  let ?K = "[[[2]], [[3]], [[5]]] :: int cmatrix_t list"
  have ne: "?K \<noteq> []" by simp
  note t = apply_kraus_one_operator [OF ne, where A = test_arith and E = test_collab
      and qubits = "[0, 1]" and s = test_state]
  have a1: "(1 :: nat) < length ?K - 1" by simp
  have b1: "(\<forall>i<1. \<not> d_gt test_arith
                (kraus_accum test_arith (d_zero test_arith)
                   (kraus_probs test_collab [0, 1] (butlast ?K) test_state) i)
                (fst (rng_rand test_collab [4]))) \<and>
            d_gt test_arith
              (kraus_accum test_arith (d_zero test_arith)
                 (kraus_probs test_collab [0, 1] (butlast ?K) test_state) 1)
              (fst (rng_rand test_collab [4]))"
    by (simp add: test_arith_def test_collab_def kraus_accum_def kraus_probs_def)
  have b2: "\<forall>i<length ?K - 1. \<not> d_gt test_arith
                (kraus_accum test_arith (d_zero test_arith)
                   (kraus_probs test_collab [0, 1] (butlast ?K) test_state) i)
                (fst (rng_rand test_collab [9]))"
  proof (intro allI impI)
    fix i :: nat
    assume "i < length ?K - 1"
    then have "i = 0 \<or> i = 1" by auto
    then show "\<not> d_gt test_arith
                (kraus_accum test_arith (d_zero test_arith)
                   (kraus_probs test_collab [0, 1] (butlast ?K) test_state) i)
                (fst (rng_rand test_collab [9]))"
      by (auto simp add: test_arith_def test_collab_def kraus_accum_def kraus_probs_def)
  qed
  note e1 = t [where rng = "[4]", THEN conjunct1, rule_format, of 1, OF a1 b1]
  note e2 = t [where rng = "[9]", THEN conjunct2, THEN conjunct1, THEN mp, OF b2]
  show ?thesis
    unfolding e1 e2 by code_simp
qed

text \<open>
  C6, as the specification states it, fails: with an empty operator list \<^verbatim>\<open>apply_kraus\<close>
  returns normally, with the generator and the state as they were; no error is raised.
\<close>

theorem apply_kraus_empty_counterexample:
  "apply_kraus test_arith test_collab [0] [] [4] test_state = Some ([4], test_state)"
  by (simp add: apply_kraus_def)

text \<open>
  C6 (amended). When \<^verbatim>\<open>apply_kraus\<close> is invoked with an empty Kraus operator list it
  returns at once (the guard \<^verbatim>\<open>if (kmats.empty()) return;\<close>): no deviate is drawn, no
  probability is computed, no operator is applied, and no error is raised.
\<close>

theorem apply_kraus_empty: "apply_kraus A E qubits [] rng s = Some (rng, s)"
  by (simp add: apply_kraus_def)

theorem apply_kraus_empty_witness:
  "apply_kraus test_arith test_collab [0, 1] [] [] test_state = Some ([], test_state)"
  using apply_kraus_empty [of test_arith test_collab "[0, 1]" "[]" test_state] by simp

text \<open>
  C7. \<^verbatim>\<open>measure_reset_update(qubits, final_state, meas_state, meas_prob)\<close>, for basis
  states \<^verbatim>\<open>final_state\<close> and \<^verbatim>\<open>meas_state\<close> of the \<open>N\<close> qubits (both below \<open>2 ^ N\<close>) and
  a matrix of \<open>2 ^ N \<times> 2 ^ N\<close> entries that a \<^verbatim>\<open>size_t\<close> can index (\<open>N < 32\<close>): it applies
  the diagonal of length \<open>2 ^ N\<close> (length 2 for one qubit) whose entries are zero but for
  \<open>1 / sqrt meas_prob\<close> at position \<^verbatim>\<open>meas_state\<close>; if \<^verbatim>\<open>final_state = meas_state\<close> it does
  nothing else; otherwise it then applies, for one qubit, the bit flip \<^verbatim>\<open>apply_mcx\<close> and,
  for any other number of qubits, the permutation matrix that swaps \<^verbatim>\<open>final_state\<close> and
  \<^verbatim>\<open>meas_state\<close> and fixes every other basis state.
\<close>

theorem measure_reset_update_spec:
  fixes A :: "('r, 'c) arith"
  assumes ms: "unat meas_state < 2 ^ length qubits"
    and fs: "unat final_state < 2 ^ length qubits"
    and N: "length qubits < 32"
  shows "measure_reset_update A E qubits final_state meas_state meas_prob s =
    Some (let N = length qubits;
              zero = c_of_double A (d_zero A);
              one = c_of_double A (d_one A);
              mdiag = (replicate (2 ^ N) zero)
                        [unat meas_state := c_of_double A (d_div A (d_one A) (d_sqrt A meas_prob))];
              s1 = call_apply_diagonal_matrix E qubits mdiag s
          in if final_state = meas_state then s1
             else if N = 1 then call_apply_mcx E qubits s1
             else call_apply_matrix E qubits
                    (swap_matrix zero one (2 ^ N) (unat final_state) (unat meas_state)) s1)"
proof (cases "length qubits = 1")
  case True
  then show ?thesis
    using ms by (simp add: measure_reset_update_def store_def Let_def)
next
  case False
  let ?N = "length qubits"
  let ?D = "(2::nat) ^ ?N"
  let ?dim = "2 ^ ?N :: uint_t"
  let ?zero = "c_of_double A (d_zero A)"
  let ?one = "c_of_double A (d_one A)"
  have N64: "?N < 64" using N by simp
  have dim: "shl 1 ?N = Some ?dim" using N64 by (simp add: shl_def)
  have ud: "unat ?dim = ?D" using unat_push_bit_1 [OF N64] by simp
  have md: "store (replicate ?D ?zero) meas_state x
      = Some ((replicate ?D ?zero)[unat meas_state := x])" for x
    using ms by (simp add: store_def)
  show ?thesis
  proof (cases "final_state = meas_state")
    case True
    then show ?thesis
      using False by (simp add: measure_reset_update_def dim ud md Let_def)
  next
    case ne: False
    have une: "unat final_state \<noteq> unat meas_state" using ne by (simp add: word_unat_eq_iff)
    have sq: "unat (?dim * ?dim) = ?D * ?D" using unat_dim_sq [OF N] by simp
    have i1: "unat (final_state * ?dim + meas_state) = unat final_state * ?D + unat meas_state"
      using unat_mul_add [OF N fs ms] by simp
    have i2: "unat (meas_state * ?dim + final_state) = unat meas_state * ?D + unat final_state"
      using unat_mul_add [OF N ms fs] by simp
    have b1: "unat final_state * ?D + unat meas_state < ?D * ?D"
    proof -
      have "unat final_state * ?D + unat meas_state < unat final_state * ?D + ?D" using ms by simp
      also have "\<dots> = (unat final_state + 1) * ?D" by simp
      also have "\<dots> \<le> ?D * ?D" using fs by (intro mult_right_mono) simp_all
      finally show ?thesis .
    qed
    have b2: "unat meas_state * ?D + unat final_state < ?D * ?D"
    proof -
      have "unat meas_state * ?D + unat final_state < unat meas_state * ?D + ?D" using fs by simp
      also have "\<dots> = (unat meas_state + 1) * ?D" by simp
      also have "\<dots> \<le> ?D * ?D" using ms by (intro mult_right_mono) simp_all
      finally show ?thesis .
    qed
    let ?p0 = "replicate (?D * ?D) ?zero"
    have st1: "store (replicate (?D * ?D) ?zero) (final_state * ?dim + meas_state) ?one
        = Some (?p0[unat final_state * ?D + unat meas_state := ?one])"
      using b1 by (simp add: store_def i1)
    have st2: "store (?p0[unat final_state * ?D + unat meas_state := ?one]) (meas_state * ?dim + final_state) ?one
        = Some (?p0[unat final_state * ?D + unat meas_state := ?one, unat meas_state * ?D + unat final_state := ?one])"
      using b2 by (simp add: store_def i2)
    have loop: "for_loop 0 ?D (perm_body A ?dim final_state meas_state)
           (?p0[unat final_state * ?D + unat meas_state := ?one, unat meas_state * ?D + unat final_state := ?one])
         = Some (swap_matrix ?zero ?one ?D (unat final_state) (unat meas_state))"
      using perm_loop_inv [OF N fs ms, of ?D A] perm_cell_final [OF une fs ms, of ?one ?zero]
      by simp
    have N2: "2 \<le> ?N"
    proof -
      have "?N \<noteq> 0" using une fs ms by auto
      then have "0 < ?N" by simp
      then show ?thesis using False by arith
    qed
    have "?D * ?D \<noteq> ?D"
      using N2 by (intro sq_ne two_le_pow)
    then have am: "apply_matrix E qubits (swap_matrix ?zero ?one ?D (unat final_state) (unat meas_state)) s'
        = Some (call_apply_matrix E qubits (swap_matrix ?zero ?one ?D (unat final_state) (unat meas_state)) s')" for s'
      by (simp add: apply_matrix_def dim ud swap_matrix_def)
    show ?thesis
      using False ne
      by (simp add: measure_reset_update_def dim md ud sq st1 st2 loop am Let_def)
  qed
qed

theorem measure_reset_update_spec_witness:
  "measure_reset_update test_arith test_collab [0, 1] 0 2 1 test_state =
     Some \<lparr>qreg = [[0, 0, 1, 0], [0, 0, 1, 0, 0, 1, 0, 0, 1, 0, 0, 0, 0, 0, 0, 1]],
           num_global_qubits = 2,
           call_log = [Apply_diagonal_matrix [0, 1] [0, 0, 1, 0],
                       Apply_matrix [0, 1] [0, 0, 1, 0, 0, 1, 0, 0, 1, 0, 0, 0, 0, 0, 0, 1]]\<rparr> \<and>
   measure_reset_update test_arith test_collab [3] 0 1 1 test_state =
     Some \<lparr>qreg = [[0, 1], []], num_global_qubits = 2,
           call_log = [Apply_diagonal_matrix [3] [0, 1], Apply_mcx [3]]\<rparr>"
proof -
  have a: "unat (2 :: uint_t) < 2 ^ length [0, 1 :: nat]" "unat (0 :: uint_t) < 2 ^ length [0, 1 :: nat]"
    "length [0, 1 :: nat] < 32"
    by simp_all
  have b: "unat (1 :: uint_t) < 2 ^ length [3 :: nat]" "unat (0 :: uint_t) < 2 ^ length [3 :: nat]"
    "length [3 :: nat] < 32"
    by simp_all
  show ?thesis
    unfolding measure_reset_update_spec [OF a] measure_reset_update_spec [OF b]
    by code_simp
qed

section \<open>Lemmas for density extraction\<close>

lemma set_cell_in:
  "row < length m \<Longrightarrow> col < length (m ! row) \<Longrightarrow>
   set_cell m row col x = Some (m[row := (m ! row)[col := x]])"
  by (simp add: set_cell_def at_def)

lemma get_cell_in:
  "row < length m \<Longrightarrow> col < length (m ! row) \<Longrightarrow> get_cell m row col = Some (m ! row ! col)"
  by (simp add: get_cell_def at_def)

lemma outer_term_in:
  "i < length vec \<Longrightarrow> j < length vec \<Longrightarrow> outer_term A D vec i j = Some (amp_term A D vec i j)"
  by (simp add: outer_term_def at_def amp_term_def)

lemma rect_update:
  "rect R C m \<Longrightarrow> length r = C \<Longrightarrow> rect R C (m[row := r])"
  by (cases "row < length m") (auto simp add: rect_def nth_list_update)

lemma map_upt_if: "map (\<lambda>i. if i < n then f i else h i) [0..<n] = map f [0..<n]"
  by (rule map_cong) simp_all

lemma col_loop:
  assumes m: "rect R C m" and row: "row < R"
    and body: "\<forall>col<C. \<forall>m'. rect R C m' \<longrightarrow>
       body col m' = Some (m'[row := (m' ! row)[col := g col (m' ! row ! col)]])"
    and t: "t \<le> C"
  shows "for_loop 0 t body m =
    Some (m[row := map (\<lambda>col. if col < t then g col (m ! row ! col) else m ! row ! col) [0..<C]])"
  using t
proof (induction t)
  case 0
  have "map (\<lambda>col. m ! row ! col) [0..<C] = m ! row"
    using m row by (auto simp add: rect_def intro!: nth_equalityI)
  then show ?case by (simp add: for_loop_empty)
next
  case (Suc t)
  let ?f = "\<lambda>t col. if col < t then g col (m ! row ! col) else m ! row ! col"
  let ?mt = "m[row := map (?f t) [0..<C]]"
  have tC: "t < C" using Suc.prems by simp
  have IH: "for_loop 0 t body m = Some ?mt" using Suc by simp
  have rt: "rect R C ?mt" using m by (intro rect_update) simp_all
  have rl: "row < length m" using m row by (simp add: rect_def)
  have "body t ?mt = Some (?mt[row := (?mt ! row)[t := g t (?mt ! row ! t)]])"
    using body tC rt by blast
  also have "?mt[row := (?mt ! row)[t := g t (?mt ! row ! t)]] = m[row := map (?f (Suc t)) [0..<C]]"
  proof -
    have "(map (?f t) [0..<C])[t := g t (m ! row ! t)] = map (?f (Suc t)) [0..<C]"
      using tC by (auto intro!: nth_equalityI simp add: nth_list_update less_Suc_eq)
    then show ?thesis using rl tC by simp
  qed
  finally show ?case using IH by (simp add: for_loop_Suc)
qed

lemma row_loop:
  assumes m: "rect R C m"
    and body: "\<forall>row<R. \<forall>m'. rect R C m' \<longrightarrow>
       body row m' = Some (m'[row := map (\<lambda>col. g row col (m' ! row ! col)) [0..<C]])"
    and t: "t \<le> R"
  shows "for_loop 0 t body m =
    Some (map (\<lambda>row. if row < t then map (\<lambda>col. g row col (m ! row ! col)) [0..<C] else m ! row) [0..<R])"
  using t
proof (induction t)
  case 0
  have "map (\<lambda>row. m ! row) [0..<R] = m"
    using m by (auto simp add: rect_def intro!: nth_equalityI)
  then show ?case by (simp add: for_loop_empty)
next
  case (Suc t)
  let ?f = "\<lambda>t row. if row < t then map (\<lambda>col. g row col (m ! row ! col)) [0..<C] else m ! row"
  let ?mt = "map (?f t) [0..<R]"
  have tR: "t < R" using Suc.prems by simp
  have IH: "for_loop 0 t body m = Some ?mt" using Suc by simp
  have rt: "rect R C ?mt" using m by (auto simp add: rect_def)
  have "body t ?mt = Some (?mt[t := map (\<lambda>col. g t col (?mt ! t ! col)) [0..<C]])"
    using body tR rt by blast
  also have "?mt[t := map (\<lambda>col. g t col (?mt ! t ! col)) [0..<C]] = map (?f (Suc t)) [0..<R]"
    using tR by (auto intro!: nth_equalityI simp add: nth_list_update less_Suc_eq)
  finally show ?case using IH by (simp add: for_loop_Suc)
qed

lemma matrix_loop:
  assumes m: "rect R C m"
    and body: "\<forall>row<R. \<forall>col<C. \<forall>m'. rect R C m' \<longrightarrow>
       body row col m' = Some (m'[row := (m' ! row)[col := g row col (m' ! row ! col)]])"
  shows "for_loop 0 R (\<lambda>row. for_loop 0 C (body row)) m =
    Some (map (\<lambda>row. map (\<lambda>col. g row col (m ! row ! col)) [0..<C]) [0..<R])"
proof -
  have "\<forall>row<R. \<forall>m'. rect R C m' \<longrightarrow>
       for_loop 0 C (body row) m' = Some (m'[row := map (\<lambda>col. g row col (m' ! row ! col)) [0..<C]])"
  proof (intro allI impI)
    fix row m' assume row: "row < R" and m': "rect R C (m' :: 'a cmatrix_t)"
    have b: "\<forall>col<C. \<forall>m''. rect R C m'' \<longrightarrow>
       body row col m'' = Some (m''[row := (m'' ! row)[col := g row col (m'' ! row ! col)]])"
      using body row by blast
    show "for_loop 0 C (body row) m' = Some (m'[row := map (\<lambda>col. g row col (m' ! row ! col)) [0..<C]])"
      using col_loop [OF m' row b, of C] by (simp add: map_upt_if)
  qed
  from row_loop [OF m this, of R] show ?thesis by (simp add: map_upt_if)
qed

lemma full_loop:
  assumes m: "rect (2 ^ N) (2 ^ N) m" and vec: "length vec = 2 ^ N" and N: "N < 64"
    and t: "t \<le> 2 ^ N * 2 ^ N"
  shows "for_loop 0 t (full_body A D vec N (mask N)) m =
    Some (map (\<lambda>row. map (\<lambda>col. if row * 2 ^ N + col < t then amp_term A D vec row col
                                 else m ! row ! col) [0..<2 ^ N]) [0..<2 ^ N])"
  using t
proof (induction t)
  case 0
  have "map (\<lambda>row. map (\<lambda>col. m ! row ! col) [0..<2 ^ N]) [0..<2 ^ N] = m"
    using m by (auto simp add: rect_def intro!: nth_equalityI)
  then show ?case by (simp add: for_loop_empty)
next
  case (Suc t)
  let ?Dm = "(2::nat) ^ N"
  let ?f = "\<lambda>t row col. if row * ?Dm + col < t then amp_term A D vec row col else m ! row ! col"
  let ?mt = "map (\<lambda>row. map (?f t row) [0..<?Dm]) [0..<?Dm]"
  let ?row = "t div ?Dm" and ?col = "t mod ?Dm"
  have tD: "t < ?Dm * ?Dm" using Suc.prems by simp
  have IH: "for_loop 0 t (full_body A D vec N (mask N)) m = Some ?mt" using Suc by simp
  have row: "?row < ?Dm" using tD by (simp add: less_mult_imp_div_less)
  have col: "?col < ?Dm" by simp
  have um: "unat (mask N :: uint_t) = mask N"
    by (rule bit_eqI) (use N in \<open>auto simp add: bit_unsigned_iff bit_mask_iff\<close>)
  have c: "t AND unat (mask N :: uint_t) = ?col"
    unfolding um by (simp flip: take_bit_eq_mask add: take_bit_eq_mod)
  have r: "drop_bit N t = ?row" by (simp add: drop_bit_eq_div)
  have "full_body A D vec N (mask N) t ?mt = Some (?mt[?row := (?mt ! ?row)[?col := amp_term A D vec ?row ?col]])"
    using row col vec by (simp add: full_body_def r c outer_term_in set_cell_in Let_def)
  also have "?mt[?row := (?mt ! ?row)[?col := amp_term A D vec ?row ?col]]
      = map (\<lambda>row. map (?f (Suc t) row) [0..<?Dm]) [0..<?Dm]"
  proof (rule nth_equalityI)
    show "length (?mt[?row := (?mt ! ?row)[?col := amp_term A D vec ?row ?col]])
        = length (map (\<lambda>row. map (?f (Suc t) row) [0..<?Dm]) [0..<?Dm])" by simp
  next
    fix i assume "i < length (?mt[?row := (?mt ! ?row)[?col := amp_term A D vec ?row ?col]])"
    then have i: "i < ?Dm" by simp
    show "?mt[?row := (?mt ! ?row)[?col := amp_term A D vec ?row ?col]] ! i
        = map (\<lambda>row. map (?f (Suc t) row) [0..<?Dm]) [0..<?Dm] ! i"
    proof (rule nth_equalityI)
      show "length (?mt[?row := (?mt ! ?row)[?col := amp_term A D vec ?row ?col]] ! i)
        = length (map (\<lambda>row. map (?f (Suc t) row) [0..<?Dm]) [0..<?Dm] ! i)"
        using i row by (simp add: nth_list_update)
    next
      fix j assume "j < length (?mt[?row := (?mt ! ?row)[?col := amp_term A D vec ?row ?col]] ! i)"
      then have j: "j < ?Dm" using i row by (simp add: nth_list_update split: if_splits)
      have e: "(t = i * ?Dm + j) = (?row = i \<and> ?col = j)" using j by (rule divmod_eq)
      show "?mt[?row := (?mt ! ?row)[?col := amp_term A D vec ?row ?col]] ! i ! j
        = map (\<lambda>row. map (?f (Suc t) row) [0..<?Dm]) [0..<?Dm] ! i ! j"
        using i j row col e by (auto simp add: nth_list_update less_Suc_eq)
    qed
  qed
  finally show ?case using IH by (simp add: for_loop_Suc)
qed

lemma first_block_loop:
  assumes m: "rect R R m" and inds: "length inds = R" and vec: "\<forall>x\<in>set inds. unat x < length vec"
  shows "for_loop 0 R (\<lambda>row. for_loop 0 R (first_block_body A D vec inds row)) m =
    Some (map (\<lambda>row. map (\<lambda>col. amp_term A D vec (unat (inds ! row)) (unat (inds ! col))) [0..<R]) [0..<R])"
proof -
  have "\<forall>row<R. \<forall>col<R. \<forall>m'. rect R R m' \<longrightarrow>
       first_block_body A D vec inds row col m' =
         Some (m'[row := (m' ! row)[col := (\<lambda>row col old. amp_term A D vec (unat (inds ! row)) (unat (inds ! col))) row col (m' ! row ! col)]])"
    using inds vec
    by (auto simp add: first_block_body_def at_def outer_term_in set_cell_in rect_def)
  from matrix_loop [OF m this] show ?thesis by simp
qed

lemma next_block_loop:
  assumes m: "rect R R m" and inds: "length inds = R" and vec: "\<forall>x\<in>set inds. unat x < length vec"
  shows "for_loop 0 R (\<lambda>row. for_loop 0 R (next_block_body A D vec inds row)) m =
    Some (map (\<lambda>row. map (\<lambda>col. c_add A (m ! row ! col)
             (amp_term A D vec (unat (inds ! row)) (unat (inds ! col)))) [0..<R]) [0..<R])"
proof -
  have "\<forall>row<R. \<forall>col<R. \<forall>m'. rect R R m' \<longrightarrow>
       next_block_body A D vec inds row col m' =
         Some (m'[row := (m' ! row)[col := (\<lambda>row col old. c_add A old
             (amp_term A D vec (unat (inds ! row)) (unat (inds ! col)))) row col (m' ! row ! col)]])"
    using inds vec
    by (auto simp add: next_block_body_def at_def outer_term_in set_cell_in get_cell_in rect_def)
  from matrix_loop [OF m this] show ?thesis by simp
qed

lemma sint_small: "unat (w :: uint_t) < 2 ^ 63 \<Longrightarrow> sint w = int (unat w)"
proof -
  assume h: "unat w < 2 ^ 63"
  have u: "uint w = int (unat w)" by simp
  have "int (unat w) < int (2 ^ 63)" using h by (simp only: of_nat_less_iff)
  then have lt: "int (unat w) < 2 ^ 63" by simp
  have "sint w = signed_take_bit 63 (uint w)" by (simp add: sint_uint)
  also have "\<dots> = signed_take_bit 63 (int (unat w))" by (simp only: u)
  also have "\<dots> = int (unat w)"
  proof (rule signed_take_bit_int_eq_self)
    have a: "(0::int) \<le> int (unat w)" by simp
    have b: "- (2 ^ 63) \<le> (0::int)" by simp
    show "- (2 ^ 63) \<le> int (unat w)" using b a by (rule order_trans)
    show "int (unat w) < 2 ^ 63" by (rule lt)
  qed
  finally show ?thesis .
qed

lemma indexes_in_range:
  assumes d: "distinct Q" and b: "\<forall>q\<in>set Q. q < M" and M: "M \<le> 63"
    and k: "unat k < 2 ^ (M - length Q)"
  shows "\<exists>blk. indexes Q (sort Q) k = Some blk \<and> length blk = 2 ^ length Q \<and>
           (\<forall>x\<in>set blk. unat x < 2 ^ M)"
proof -
  let ?N = "length Q"
  let ?i0 = "fold ins0 (sort Q) k"
  let ?blk = "map (\<lambda>m. ?i0 OR subset_mask Q m) [0..<2 ^ ?N]"
  have NM: "?N \<le> M" using d b by (rule distinct_length_le)
  have q63: "\<forall>q\<in>set Q. q < 63" using b M by auto
  have q64: "\<forall>t<length Q. Q ! t < 64"
  proof (intro allI impI)
    fix t assume "t < length Q"
    then have "Q ! t \<in> set Q" by simp
    then have "Q ! t < 63" using q63 by blast
    then show "Q ! t < 64" by simp
  qed
  have blk: "indexes Q (sort Q) k = Some ?blk"
    using indexes_closed [of "sort Q" Q k] NM M q63 q64 by simp
  have high: "\<forall>n\<ge>M. \<not> bit ?i0 n"
    using fold_ins0_high [OF less_imp_high_bits [OF k], of "sort Q"] NM by simp
  have "\<forall>x\<in>set ?blk. unat x < 2 ^ M"
  proof
    fix x assume "x \<in> set ?blk"
    then obtain m where x: "x = ?i0 OR subset_mask Q m" by auto
    have "\<forall>n\<ge>M. \<not> bit x n"
    proof (intro allI impI)
      fix n assume n: "M \<le> n"
      have "\<not> bit (subset_mask Q m) n"
      proof
        assume "bit (subset_mask Q m) n"
        then obtain t where "t < length Q" "Q ! t = n" by (auto simp add: bit_subset_mask)
        then have "n \<in> set Q" by auto
        then show False using b n by auto
      qed
      then show "\<not> bit x n" using high n by (simp add: x bit_or_iff)
    qed
    then show "unat x < 2 ^ M" by (rule high_bits_imp_less)
  qed
  then show ?thesis using blk by simp
qed

lemma block_loop:
  fixes A :: "('r, 'c) arith" and D :: "('q, 'r, 'a, 'c) density_collab"
  assumes blocks: "\<forall>k<END. \<exists>b. indexes qubits (sort qubits) (of_nat k) = Some b \<and>
        length b = 2 ^ length qubits \<and> (\<forall>x\<in>set b. unat x < length vec)"
    and t: "1 \<le> t" "t \<le> END"
  shows "for_loop 1 t
     (\<lambda>k m. do {
        inds \<leftarrow> indexes qubits (sort qubits) (of_nat k);
        for_loop 0 (2 ^ length qubits)
          (\<lambda>row. for_loop 0 (2 ^ length qubits) (next_block_body A D vec inds row)) m
      }) (partial_density A D vec qubits 1)
   = Some (partial_density A D vec qubits t)"
  using t
proof (induction t rule: nat_induct_at_least)
  case base
  then show ?case by (subst for_loop.simps) simp
next
  case (Suc t)
  let ?R = "(2::nat) ^ length qubits"
  have tE: "t < END" using Suc.prems by simp
  obtain b where b: "indexes qubits (sort qubits) (of_nat t) = Some b" "length b = ?R"
      "\<forall>x\<in>set b. unat x < length vec"
    using blocks tE by blast
  have IH: "for_loop 1 t
     (\<lambda>k m. do {
        inds \<leftarrow> indexes qubits (sort qubits) (of_nat k);
        for_loop 0 ?R (\<lambda>row. for_loop 0 ?R (next_block_body A D vec inds row)) m
      }) (partial_density A D vec qubits 1)
   = Some (partial_density A D vec qubits t)"
    using Suc by simp
  have r: "rect ?R ?R (partial_density A D vec qubits t)"
    by (simp add: rect_def partial_density_def)
  have up: "[1..<Suc t] = [1..<t] @ [t]" using Suc.hyps by simp
  have "for_loop 0 ?R (\<lambda>row. for_loop 0 ?R (next_block_body A D vec b row))
          (partial_density A D vec qubits t)
      = Some (map (\<lambda>row. map (\<lambda>col. c_add A (partial_density A D vec qubits t ! row ! col)
             (amp_term A D vec (unat (b ! row)) (unat (b ! col)))) [0..<?R]) [0..<?R])"
    by (rule next_block_loop [OF r b(2) b(3)])
  also have "map (\<lambda>row. map (\<lambda>col. c_add A (partial_density A D vec qubits t ! row ! col)
             (amp_term A D vec (unat (b ! row)) (unat (b ! col)))) [0..<?R]) [0..<?R]
      = partial_density A D vec qubits (Suc t)"
    unfolding partial_density_def up
    by (auto simp add: block_term_def b(1) simp del: upt_Suc)
  finally show ?case
    using IH b(1) Suc.hyps by (simp add: for_loop_Suc)
qed

lemma cell_index_less: "r < (D::nat) \<Longrightarrow> c < D \<Longrightarrow> r * D + c < D * D"
proof -
  assume r: "r < D" and c: "c < D"
  have "r * D + c < r * D + D" using c by simp
  also have "\<dots> = (r + 1) * D" by simp
  also have "\<dots> \<le> D * D" using r by (intro mult_right_mono) simp_all
  finally show ?thesis .
qed

lemma full_matrix_map:
  "map (\<lambda>row. map (\<lambda>col. if row * D + col < D * D then f row col else g row col) [0..<D]) [0..<D]
   = map (\<lambda>row. map (\<lambda>col. f row col) [0..<D]) [0..<D]"
  by (auto intro!: map_cong simp add: cell_index_less)

lemma vec2density_full:
  fixes A :: "('r, 'c) arith" and D :: "('q, 'r, 'a, 'c) density_collab"
  assumes nq: "0 < num_qubits D q" "num_qubits D q < 32"
    and vec: "length vec = 2 ^ num_qubits D q"
  shows "vec2density A D q [0..<num_qubits D q] vec =
     Some (map (\<lambda>row. map (\<lambda>col. amp_term A D vec row col) [0..<2 ^ num_qubits D q])
            [0..<2 ^ num_qubits D q])"
proof -
  let ?n = "num_qubits D q"
  let ?Dm = "(2::nat) ^ ?n"
  let ?m = "replicate ?Dm (replicate ?Dm (c_of_double A (d_zero A)))"
  have n64: "?n < 64" using nq by simp
  have ud: "unat (2 ^ ?n :: uint_t) = ?Dm" using unat_push_bit_1 [OF n64] by simp
  have sq: "unat ((2 ^ ?n :: uint_t) * 2 ^ ?n) = ?Dm * ?Dm" using unat_dim_sq [OF nq(2)] by simp
  have "?Dm * ?Dm = 2 ^ (?n + ?n)" by (simp add: power_add)
  also have "\<dots> < 2 ^ 63" using nq(2) by (intro power_strict_increasing) simp_all
  finally have "unat ((2 ^ ?n :: uint_t) * 2 ^ ?n) < 2 ^ 63" using sq by simp
  then have "sint ((2 ^ ?n :: uint_t) * 2 ^ ?n) = int (unat ((2 ^ ?n :: uint_t) * 2 ^ ?n))"
    by (rule sint_small)
  then have "nat (sint ((2 ^ ?n :: uint_t) * 2 ^ ?n)) = unat ((2 ^ ?n :: uint_t) * 2 ^ ?n)"
    by (simp only: nat_int)
  then have si: "nat (sint ((2 ^ ?n :: uint_t) * 2 ^ ?n)) = ?Dm * ?Dm"
    using sq by simp
  have r: "rect ?Dm ?Dm ?m" by (simp add: rect_def)
  have loop: "for_loop 0 (?Dm * ?Dm) (full_body A D vec ?n (mask ?n)) ?m =
     Some (map (\<lambda>row. map (\<lambda>col. amp_term A D vec row col) [0..<?Dm]) [0..<?Dm])"
    using full_loop [OF r vec n64, of "?Dm * ?Dm" A D] by (simp add: full_matrix_map)
  show ?thesis
    using n64 loop by (simp add: vec2density_def shl_def ud si MASKS_eq sorted_sort_id Let_def)
qed

lemma vec2density_general:
  fixes A :: "('r, 'c) arith" and D :: "('q, 'r, 'a, 'c) density_collab"
  assumes d: "distinct qubits" and b: "\<forall>x\<in>set qubits. x < num_qubits D q"
    and nq: "num_qubits D q \<le> 63"
    and vec: "length vec = 2 ^ num_qubits D q"
    and other: "\<not> (length qubits = num_qubits D q \<and> qubits = sort qubits)"
  shows "vec2density A D q qubits vec =
     Some (partial_density A D vec qubits (2 ^ (num_qubits D q - length qubits)))"
proof -
  let ?n = "num_qubits D q"
  let ?N = "length qubits"
  let ?R = "(2::nat) ^ ?N"
  let ?END = "(2::nat) ^ (?n - ?N)"
  let ?m = "replicate ?R (replicate ?R (c_of_double A (d_zero A)))"
  have Nn: "?N \<le> ?n" using d b by (rule distinct_length_le)
  have N64: "?N < 64" using Nn nq by simp
  have ud: "unat (2 ^ ?N :: uint_t) = ?R" using unat_push_bit_1 [OF N64] by simp
  have e64: "?n - ?N < 64" using nq by simp
  have ue: "unat (2 ^ (?n - ?N) :: uint_t) = ?END" using unat_push_bit_1 [OF e64] by simp
  have blocks: "\<forall>k<?END. \<exists>blk. indexes qubits (sort qubits) (of_nat k) = Some blk \<and>
        length blk = ?R \<and> (\<forall>x\<in>set blk. unat x < length vec)"
  proof (intro allI impI)
    fix k assume k: "k < ?END"
    have "?END \<le> 2 ^ 64" using e64 by (intro power_increasing) simp_all
    then have "k < 2 ^ 64" using k by simp
    then have "unat (of_nat k :: uint_t) = k" by (simp add: unat_of_nat)
    then have "unat (of_nat k :: uint_t) < 2 ^ (?n - ?N)" using k by simp
    from indexes_in_range [OF d b nq this] show
      "\<exists>blk. indexes qubits (sort qubits) (of_nat k) = Some blk \<and>
        length blk = ?R \<and> (\<forall>x\<in>set blk. unat x < length vec)"
      using vec by simp
  qed
  have "0 < ?END" by simp
  with blocks obtain b0 where b0: "indexes qubits (sort qubits) (of_nat 0) = Some b0"
      "length b0 = ?R" "\<forall>x\<in>set b0. unat x < length vec"
    by blast
  have r: "rect ?R ?R ?m" by (simp add: rect_def)
  have first: "for_loop 0 ?R (\<lambda>row. for_loop 0 ?R (first_block_body A D vec b0 row)) ?m
      = Some (partial_density A D vec qubits 1)"
    using first_block_loop [OF r b0(2) b0(3), of A D] b0(1)
    by (simp add: partial_density_def block_term_def)
  have rest: "for_loop 1 ?END
     (\<lambda>k m. do {
        inds \<leftarrow> indexes qubits (sort qubits) (of_nat k);
        for_loop 0 ?R (\<lambda>row. for_loop 0 ?R (next_block_body A D vec inds row)) m
      }) (partial_density A D vec qubits 1)
   = Some (partial_density A D vec qubits ?END)"
    by (rule block_loop [OF blocks]) simp_all
  show ?thesis
    using Nn N64 e64 b0(1) first rest
    by (simp add: vec2density_def shl_def ud ue Let_def if_not_P [OF other])
qed

lemma full_range_unique:
  assumes d: "distinct qubits" and b: "\<forall>x\<in>set qubits. x < n"
    and l: "length qubits = n" and s: "qubits = sort qubits"
  shows "qubits = [0..<n]"
proof -
  have "set qubits \<subseteq> {0..<n}" using b by auto
  moreover have "card (set qubits) = card {0..<n}" using d l by (simp add: distinct_card)
  ultimately have "set qubits = {0..<n}" by (intro card_subset_eq) simp_all
  then have "set qubits = set [0..<n]" by simp
  moreover have "sorted qubits" using s by (metis sorted_sort)
  ultimately show ?thesis
    using d by (intro sorted_distinct_set_unique) simp_all
qed

section \<open>The claim about density extraction\<close>

text \<open>
  C8. For an empty qubit list the saved matrix is the \<open>1 \<times> 1\<close> matrix holding the norm of
  the state. For the qubit list \<open>0, \<dots>, n - 1\<close> of a register of \<open>n\<close> qubits the saved
  matrix has \<open>amp[row] * conj(amp[col])\<close> at \<open>(row, col)\<close>, for all \<open>row, col < 2 ^ n\<close>.
  For every other duplicate-free list of qubits of the register the saved matrix is the
  sum over the reduced indices \<open>k < 2 ^ (n - N)\<close> of the outer product of the amplitudes
  addressed by the index block of \<open>k\<close>: the block of 0 sets the matrix and each further
  block is added to it. The register holds \<open>2 ^ n\<close> amplitudes; \<open>n < 32\<close> in the second
  case (the loop bound \<open>2 ^ n * 2 ^ n\<close> is an \<^verbatim>\<open>int_t\<close>) and \<open>n \<le> 63\<close> in the third.
\<close>

theorem apply_save_density_matrix_cases:
  fixes A :: "('r, 'c) arith" and D :: "('q, 'r, 'a, 'c) density_collab"
  shows
   "apply_save_density_matrix A D [] q = Some [[c_of_double A (norm_all D q)]] \<and>
    (0 < num_qubits D q \<and> num_qubits D q < 32 \<and>
     length (copy_to_vector D q) = 2 ^ num_qubits D q \<longrightarrow>
       apply_save_density_matrix A D [0..<num_qubits D q] q =
         Some (map (\<lambda>row. map (\<lambda>col. amp_term A D (copy_to_vector D q) row col)
                      [0..<2 ^ num_qubits D q]) [0..<2 ^ num_qubits D q])) \<and>
    (qubits \<noteq> [] \<and> qubits \<noteq> [0..<num_qubits D q] \<and>
     distinct qubits \<and> (\<forall>x\<in>set qubits. x < num_qubits D q) \<and> num_qubits D q \<le> 63 \<and>
     length (copy_to_vector D q) = 2 ^ num_qubits D q \<longrightarrow>
       apply_save_density_matrix A D qubits q =
         Some (partial_density A D (copy_to_vector D q) qubits
                 (2 ^ (num_qubits D q - length qubits))))"
proof (intro conjI impI)
  show "apply_save_density_matrix A D [] q = Some [[c_of_double A (norm_all D q)]]"
    by (simp add: apply_save_density_matrix_def set_cell_def at_def)
next
  assume h: "0 < num_qubits D q \<and> num_qubits D q < 32 \<and>
     length (copy_to_vector D q) = 2 ^ num_qubits D q"
  then have "[0..<num_qubits D q] \<noteq> []" by simp
  then show "apply_save_density_matrix A D [0..<num_qubits D q] q =
         Some (map (\<lambda>row. map (\<lambda>col. amp_term A D (copy_to_vector D q) row col)
                      [0..<2 ^ num_qubits D q]) [0..<2 ^ num_qubits D q])"
    using h vec2density_full [of D q "copy_to_vector D q" A]
    by (simp add: apply_save_density_matrix_def)
next
  assume h: "qubits \<noteq> [] \<and> qubits \<noteq> [0..<num_qubits D q] \<and>
     distinct qubits \<and> (\<forall>x\<in>set qubits. x < num_qubits D q) \<and> num_qubits D q \<le> 63 \<and>
     length (copy_to_vector D q) = 2 ^ num_qubits D q"
  then have other: "\<not> (length qubits = num_qubits D q \<and> qubits = sort qubits)"
    using full_range_unique [of qubits "num_qubits D q"] by blast
  from h have d: "distinct qubits" and b: "\<forall>x\<in>set qubits. x < num_qubits D q"
    and nq: "num_qubits D q \<le> 63" and vec: "length (copy_to_vector D q) = 2 ^ num_qubits D q"
    by simp_all
  show "apply_save_density_matrix A D qubits q =
         Some (partial_density A D (copy_to_vector D q) qubits
                 (2 ^ (num_qubits D q - length qubits)))"
    using h vec2density_general [OF d b nq vec other, of A]
    by (simp add: apply_save_density_matrix_def)
qed

theorem apply_save_density_matrix_cases_witness:
  "apply_save_density_matrix test_arith test_density [] [1, 2, 3, 4] = Some [[10]] \<and>
   apply_save_density_matrix test_arith test_density [0, 1] [1, 2, 3, 4] =
     Some [[- 1, - 2, - 3, - 4], [- 2, - 4, - 6, - 8], [- 3, - 6, - 9, - 12], [- 4, - 8, - 12, - 16]] \<and>
   apply_save_density_matrix test_arith test_density [1] [1, 2, 3, 4] =
     Some [[- 5, - 11], [- 11, - 25]]"
proof -
  let ?q = "[1, 2, 3, 4] :: int list"
  note t = apply_save_density_matrix_cases [where A = test_arith and D = test_density and q = ?q]
  have r: "[0..<num_qubits test_density ?q] = [0, 1]" by code_simp
  have h2: "0 < num_qubits test_density ?q \<and> num_qubits test_density ?q < 32 \<and>
     length (copy_to_vector test_density ?q) = 2 ^ num_qubits test_density ?q"
    by (simp add: test_density_def)
  have h3: "[1 :: nat] \<noteq> [] \<and> [1] \<noteq> [0..<num_qubits test_density ?q] \<and>
     distinct [1 :: nat] \<and> (\<forall>x\<in>set [1]. x < num_qubits test_density ?q) \<and>
     num_qubits test_density ?q \<le> 63 \<and>
     length (copy_to_vector test_density ?q) = 2 ^ num_qubits test_density ?q"
    unfolding r by (simp add: test_density_def)
  note e1 = t [where qubits = "[]", THEN conjunct1]
  note e2 = t [where qubits = "[]", THEN conjunct2, THEN conjunct1, THEN mp, OF h2, unfolded r]
  note e3 = t [where qubits = "[1]", THEN conjunct2, THEN conjunct2, THEN mp, OF h3]
  show ?thesis
    unfolding e1 e2 e3 by code_simp
qed

end
